theory Spec2Isabelle
  imports Complex_Main "HOL-Library.Sublist"
begin

section \<open>Strings and the regular expressions the sources use\<close>

text \<open>
  A JavaScript string is modelled as a \<^typ>\<open>string\<close>, one \<^typ>\<open>char\<close> per code unit.
  Every pattern of the sources is ASCII; a character outside ASCII is just a character that
  is neither a letter nor a digit.
\<close>

definition is_digit :: "char \<Rightarrow> bool" where
  "is_digit c = (c \<in> set ''0123456789'')"

definition is_lower :: "char \<Rightarrow> bool" where
  "is_lower c = (c \<in> set ''abcdefghijklmnopqrstuvwxyz'')"

definition is_upper :: "char \<Rightarrow> bool" where
  "is_upper c = (c \<in> set ''ABCDEFGHIJKLMNOPQRSTUVWXYZ'')"

text \<open>\<^verbatim>\<open>String.prototype.toLowerCase\<close>, on the ASCII letters.\<close>

definition to_lower :: "char \<Rightarrow> char" where
  "to_lower c =
     (case map_of (zip ''ABCDEFGHIJKLMNOPQRSTUVWXYZ'' ''abcdefghijklmnopqrstuvwxyz'') c of
        Some l \<Rightarrow> l
      | None \<Rightarrow> c)"

definition toLowerCase :: "string \<Rightarrow> string" where
  "toLowerCase s = map to_lower s"

text \<open>\<^verbatim>\<open>s.includes(sub)\<close>: \<open>sub\<close> occurs in \<open>s\<close> at some position.\<close>

fun str_includes :: "string \<Rightarrow> string \<Rightarrow> bool" where
  "str_includes [] sub = (sub = [])"
| "str_includes (c # cs) sub = (prefix sub (c # cs) \<or> str_includes cs sub)"

text \<open>
  A regular expression is modelled by what it does at one position of the subject: the
  length of its match starting there, if it matches there. \<^verbatim>\<open>replace\<close> without the
  \<^verbatim>\<open>g\<close> flag rewrites the leftmost match only; with the flag it rewrites every match,
  scanning on after each one.
\<close>

type_synonym matcher = "string \<Rightarrow> nat option"

definition lit :: "string \<Rightarrow> matcher" where
  "lit p s = (if prefix p s then Some (length p) else None)"

definition alt :: "matcher \<Rightarrow> matcher \<Rightarrow> matcher" where
  "alt m1 m2 s = (case m1 s of Some n \<Rightarrow> Some n | None \<Rightarrow> m2 s)"

fun regex_test :: "matcher \<Rightarrow> string \<Rightarrow> bool" where
  "regex_test m [] = (m [] \<noteq> None)"
| "regex_test m (c # cs) = (m (c # cs) \<noteq> None \<or> regex_test m cs)"

fun replace_first :: "matcher \<Rightarrow> string \<Rightarrow> string \<Rightarrow> string" where
  "replace_first m rep [] = (case m [] of Some n \<Rightarrow> rep | None \<Rightarrow> [])"
| "replace_first m rep (c # cs) =
     (case m (c # cs) of
        Some n \<Rightarrow> rep @ drop n (c # cs)
      | None \<Rightarrow> c # replace_first m rep cs)"

fun replace_all :: "matcher \<Rightarrow> string \<Rightarrow> string \<Rightarrow> string" where
  "replace_all m rep [] = (case m [] of Some n \<Rightarrow> rep | None \<Rightarrow> [])"
| "replace_all m rep (c # cs) =
     (case m (c # cs) of
        None \<Rightarrow> c # replace_all m rep cs
      | Some n \<Rightarrow>
          (if n = 0 then rep @ c # replace_all m rep cs
           else rep @ replace_all m rep (drop (n - 1) cs)))"

text \<open>A pattern anchored with \<^verbatim>\<open>^\<close> can only match at the start of the subject.\<close>

definition replace_at_start :: "matcher \<Rightarrow> string \<Rightarrow> string \<Rightarrow> string" where
  "replace_at_start m rep s = (case m s of Some n \<Rightarrow> rep @ drop n s | None \<Rightarrow> s)"

text \<open>\<^verbatim>\<open>.\<close> matches every character but a line terminator; of the four line terminators
  of the language the two that are single characters here are line feed and carriage return.\<close>

definition line_terminator :: "char \<Rightarrow> bool" where
  "line_terminator c = (c = CHR 0x0A \<or> c = CHR 0x0D)"

text \<open>
  \<^verbatim>\<open>/\/fs\/.*?\//\<close>: the text \<^verbatim>\<open>/fs/\<close>, then as few characters as possible up to the
  next slash; no match at this position when a line terminator comes before that slash,
  or when no slash follows.
\<close>

definition fs_segment :: matcher where
  "fs_segment s =
     (if prefix ''/fs/'' s then
        (let r = drop 4 s; pre = takeWhile (\<lambda>c. c \<noteq> CHR ''/'') r
         in if length pre < length r \<and> list_all (\<lambda>c. \<not> line_terminator c) pre
            then Some (4 + length pre + 1) else None)
      else None)"

text \<open>\<^verbatim>\<open>/\/200H?\//\<close> and its siblings: the optional \<^verbatim>\<open>H\<close> is tried first.\<close>

definition size_segment :: "string \<Rightarrow> matcher" where
  "size_segment n = alt (lit (''/'' @ n @ ''H/'')) (lit (''/'' @ n @ ''/''))"

text \<open>\<^verbatim>\<open>.replace(/\/+$/, '')\<close>: the trailing run of slashes is removed.\<close>

definition strip_trailing_slashes :: "string \<Rightarrow> string" where
  "strip_trailing_slashes s = rev (dropWhile (\<lambda>c. c = CHR ''/'') (rev s))"

text \<open>The decimal digits of a number, as a template literal prints it.\<close>

function string_of_nat :: "nat \<Rightarrow> string" where
  "string_of_nat n =
     (if n < 10 then [''0123456789'' ! n]
      else string_of_nat (n div 10) @ [''0123456789'' ! (n mod 10)])"
  by pat_completeness auto
termination
  by (relation "measure id") auto

declare string_of_nat.simps [simp del]

section \<open>The extractor (behanceExtractor)\<close>

record BehanceImage =
  url :: string
  filename :: string

text \<open>An \<^verbatim>\<open>Error\<close> is modelled by its message; a function that throws returns \<open>Inl\<close>.\<close>

type_synonym 'a result = "string + 'a"

definition search_url_message :: string where
  "search_url_message = ''Please provide a direct Behance project URL instead of a search URL. Example: https://www.behance.net/gallery/123456/Project-Name''"

definition invalid_url_message :: string where
  "invalid_url_message = ''Invalid Behance URL. Please provide a direct project URL. Example: https://www.behance.net/gallery/123456/Project-Name''"

definition invalid_format_message :: string where
  "invalid_format_message = ''Invalid URL format. Please provide a direct Behance project URL. Example: https://www.behance.net/gallery/123456/Project-Name''"

definition no_id_message :: string where
  "no_id_message = ''Could not extract project ID from URL. Please provide a valid Behance project URL.''"

definition no_images_message :: string where
  "no_images_message = ''No images found in the gallery. Please make sure the URL is correct and the project is public.''"

text \<open>\<^verbatim>\<open>/behance\.net\/gallery\/\d+$/\<close>: the subject ends with the gallery path and one or
  more digits.\<close>

definition short_gallery_url :: "string \<Rightarrow> bool" where
  "short_gallery_url s =
     (let ds = takeWhile is_digit (rev s)
      in ds \<noteq> [] \<and> suffix ''behance.net/gallery/'' (rev (drop (length ds) (rev s))))"

definition validateAndCleanUrl :: "string \<Rightarrow> string result" where
  "validateAndCleanUrl u =
     (let cleanUrl = strip_trailing_slashes (takeWhile (\<lambda>c. c \<noteq> CHR ''?'') u)
      in if str_includes cleanUrl ''/search/projects'' then Inl search_url_message
         else if short_gallery_url cleanUrl then Inr cleanUrl
         else if str_includes cleanUrl ''behance.net/gallery/'' then Inr cleanUrl
         else Inl invalid_url_message)"

text \<open>\<^verbatim>\<open>cleanUrl.match(/gallery\/(\d+)/)\<close>: the digits after the leftmost
  \<^verbatim>\<open>gallery/\<close> that a digit follows.\<close>

fun match_gallery_id :: "string \<Rightarrow> string option" where
  "match_gallery_id [] = None"
| "match_gallery_id (c # cs) =
     (if prefix ''gallery/'' (c # cs) \<and> takeWhile is_digit (drop 8 (c # cs)) \<noteq> []
      then Some (takeWhile is_digit (drop 8 (c # cs)))
      else match_gallery_id cs)"

definition extractProjectId :: "string \<Rightarrow> string result" where
  "extractProjectId u =
     (case validateAndCleanUrl u of
        Inl e \<Rightarrow> Inl e
      | Inr cleanUrl \<Rightarrow>
          (case match_gallery_id cleanUrl of
             None \<Rightarrow> Inl no_id_message
           | Some i \<Rightarrow> Inr i))"

text \<open>\<^verbatim>\<open>/[^a-z0-9]/gi\<close>: with the \<^verbatim>\<open>i\<close> flag the class also holds the capital letters.\<close>

definition alnum_ci :: "char \<Rightarrow> bool" where
  "alnum_ci c = (is_lower c \<or> is_upper c \<or> is_digit c)"

text \<open>\<^verbatim>\<open>.replace(/_+/g, '_')\<close>: every run of underscores becomes one underscore.\<close>

fun collapse_underscores :: "string \<Rightarrow> string" where
  "collapse_underscores (a # b # cs) =
     (if a = CHR ''_'' \<and> b = CHR ''_'' then collapse_underscores (b # cs)
      else a # collapse_underscores (b # cs))"
| "collapse_underscores cs = cs"

text \<open>\<^verbatim>\<open>.replace(/^_|_$/g, '')\<close>: one underscore at the start and one at the end are
  removed.\<close>

definition trim_underscore :: "string \<Rightarrow> string" where
  "trim_underscore s =
     (let s1 = (case s of [] \<Rightarrow> [] | c # cs \<Rightarrow> if c = CHR ''_'' then cs else c # cs)
      in if s1 \<noteq> [] \<and> last s1 = CHR ''_'' then butlast s1 else s1)"

definition sanitizeFilename :: "string \<Rightarrow> string" where
  "sanitizeFilename name =
     (let s = take 50 (trim_underscore (collapse_underscores
                (map (\<lambda>c. if alnum_ci c then c else CHR ''_'') (toLowerCase name))))
      in if s = [] then ''image'' else s)"

definition getHighestQualityUrl :: "string \<Rightarrow> string" where
  "getHighestQualityUrl u =
     (if u = [] then []
      else
        (let cleanUrl = replace_at_start (lit ''//'') ''https://'' u;
             u1 = replace_first fs_segment ''/original/'' cleanUrl;
             u2 = replace_first (size_segment ''200'') ''/2000/'' u1;
             u3 = replace_first (size_segment ''400'') ''/2000/'' u2;
             u4 = replace_first (size_segment ''600'') ''/2000/'' u3;
             u5 = replace_first (size_segment ''800'') ''/2000/'' u4;
             u6 = replace_first (size_segment ''1400'') ''/2000/'' u5;
             u7 = replace_all (lit ''_200.'') ''_2000.'' u6;
             u8 = replace_all (lit ''_400.'') ''_2000.'' u7;
             u9 = replace_all (lit ''_600.'') ''_2000.'' u8;
             u10 = replace_all (lit ''_800.'') ''_2000.'' u9
         in replace_all (lit ''_1400.'') ''_2000.'' u10))"

definition getExtensionFromUrl :: "string \<Rightarrow> string" where
  "getExtensionFromUrl u =
     (let urlLower = toLowerCase u
      in case find (\<lambda>ext. str_includes urlLower ext) [''.jpg'', ''.jpeg'', ''.png'', ''.gif'', ''.webp''] of
           Some ext \<Rightarrow> ext
         | None \<Rightarrow> ''.jpg'')"

text \<open>
  The loop of \<^verbatim>\<open>extractBehanceImages\<close> over the raw references of one scan: the state is
  the list \<^verbatim>\<open>images\<close> and the set \<^verbatim>\<open>seen\<close>.
\<close>

fun process_urls :: "string \<Rightarrow> string list \<Rightarrow> BehanceImage list \<times> string set \<Rightarrow> BehanceImage list \<times> string set" where
  "process_urls projectTitle [] (images, seen) = (images, seen)"
| "process_urls projectTitle (imageUrl # rest) (images, seen) =
     (let highQualityUrl = getHighestQualityUrl imageUrl
      in if highQualityUrl \<noteq> [] \<and> highQualityUrl \<notin> seen
         then process_urls projectTitle rest
                (images @ [\<lparr>url = highQualityUrl,
                             filename = sanitizeFilename projectTitle @ ''_''
                               @ string_of_nat (length images + 1)
                               @ getExtensionFromUrl highQualityUrl\<rparr>],
                 insert highQualityUrl seen)
         else process_urls projectTitle rest (images, seen))"

text \<open>
  The page, as the rendering backend shows it to the script: the \<^verbatim>\<open>og:title\<close> content and
  the \<^verbatim>\<open>img\<close> elements before and after the scroll to the bottom.
\<close>

record img =
  src :: string
  data_src :: "string option"

record page =
  og_title :: "string option"
  imgs :: "img list"
  imgs_scrolled :: "img list"

definition scan_images :: "img list \<Rightarrow> string list" where
  "scan_images es =
     filter (\<lambda>s. s \<noteq> [] \<and> str_includes s ''mir-s3-cdn-cf.behance.net'')
       (map (\<lambda>e. if src e \<noteq> [] then src e
                 else (case data_src e of Some d \<Rightarrow> d | None \<Rightarrow> [])) es)"

definition rethrow :: "string \<Rightarrow> string" where
  "rethrow msg =
     (if str_includes msg ''search/projects'' then search_url_message
      else if str_includes msg ''Invalid Behance URL'' then invalid_format_message
      else msg)"

text \<open>\<open>render\<close> is the browser: launching it and loading the project page either throws or
  gives the page.\<close>

definition extractBehanceImages :: "(string \<Rightarrow> page result) \<Rightarrow> string \<Rightarrow> BehanceImage list result" where
  "extractBehanceImages render u =
     (case extractProjectId u of
        Inl e \<Rightarrow> Inl (rethrow e)
      | Inr projectId \<Rightarrow>
          (case render (''https://www.behance.net/gallery/'' @ projectId) of
             Inl e \<Rightarrow> Inl (rethrow e)
           | Inr p \<Rightarrow>
               (let projectTitle = (case og_title p of
                                      None \<Rightarrow> ''behance_project''
                                    | Some t \<Rightarrow> if t = [] then ''behance_project'' else t);
                    st1 = process_urls projectTitle (scan_images (imgs p)) ([], {});
                    st2 = (if length (fst st1) = 0
                           then process_urls projectTitle (scan_images (imgs_scrolled p)) st1
                           else st1)
                in if length (fst st2) = 0 then Inl (rethrow no_images_message)
                   else Inr (fst st2))))"

section \<open>The quota store and the request handler (pages/api/download)\<close>

text \<open>
  A \<^verbatim>\<open>Date\<close> is modelled by its time value, an \<^typ>\<open>int\<close> of milliseconds; the ISO strings
  the store keeps are read back to the same time values. Every function that reads the clock
  takes the current time \<open>now\<close> as its first argument, and one call reads it once.

  The store is a plain object. Its own properties are a map from client keys to entries.
  Reading \<^verbatim>\<open>rateLimitStore[clientIp]\<close> finds the own entry of the key, or else the member of that
  name that every object inherits from \<^verbatim>\<open>Object.prototype\<close>, or else nothing. An inherited
  member is a function (for \<^verbatim>\<open>__proto__\<close> it is the prototype object): it is truthy, its
  \<^verbatim>\<open>resetTime\<close> and its \<^verbatim>\<open>downloads\<close> are undefined, the date made of the former is invalid
  and is not before any time, and a method call on the latter throws a \<^verbatim>\<open>TypeError\<close>. A value
  that is thrown is the left summand of a result, the message of the error (written without
  its quotation marks).
\<close>

definition HOURLY_LIMIT :: int where
  "HOURLY_LIMIT = 20"

definition RATE_LIMIT_WINDOW :: int where
  "RATE_LIMIT_WINDOW = 60 * 60 * 1000"

record entry =
  downloads :: "int list"
  resetTime :: int

type_synonym RateLimitStore = "string \<rightharpoonup> entry"

record RateLimitInfo =
  used :: int
  limit :: int
  remaining :: int
  info_resetTime :: int

definition Object_prototype_members :: "string list" where
  "Object_prototype_members =
     [''constructor'', ''__defineGetter__'', ''__defineSetter__'', ''hasOwnProperty'',
      ''__lookupGetter__'', ''__lookupSetter__'', ''isPrototypeOf'', ''propertyIsEnumerable'',
      ''toString'', ''valueOf'', ''__proto__'', ''toLocaleString'']"

datatype property = Missing | OwnEntry entry | Inherited

definition store_lookup :: "RateLimitStore \<Rightarrow> string \<Rightarrow> property" where
  "store_lookup st clientIp =
     (case st clientIp of
        Some e \<Rightarrow> OwnEntry e
      | None \<Rightarrow> if clientIp \<in> set Object_prototype_members then Inherited else Missing)"

definition read_undefined_message :: "string \<Rightarrow> string" where
  "read_undefined_message member = ''Cannot read properties of undefined (reading '' @ member @ '')''"

text \<open>\<^verbatim>\<open>Object.keys\<close> lists the own properties only.\<close>

definition cleanupRateLimitStore :: "int \<Rightarrow> RateLimitStore \<Rightarrow> RateLimitStore" where
  "cleanupRateLimitStore now st =
     (\<lambda>ip. case st ip of
              None \<Rightarrow> None
            | Some e \<Rightarrow> if resetTime e < now then None else Some e)"

definition fresh_window :: "int \<Rightarrow> RateLimitStore \<Rightarrow> string \<Rightarrow> RateLimitStore \<times> RateLimitInfo" where
  "fresh_window now st clientIp =
     (st(clientIp \<mapsto> \<lparr>downloads = [], resetTime = now + RATE_LIMIT_WINDOW\<rparr>),
      \<lparr>used = 0, limit = HOURLY_LIMIT, remaining = HOURLY_LIMIT,
       info_resetTime = now + RATE_LIMIT_WINDOW\<rparr>)"

text \<open>When \<^verbatim>\<open>getRateLimitInfo\<close> throws, it has assigned nothing: the store is as it was.\<close>

definition getRateLimitInfo :: "int \<Rightarrow> RateLimitStore \<Rightarrow> string \<Rightarrow> (RateLimitStore \<times> RateLimitInfo) result" where
  "getRateLimitInfo now st clientIp =
     (case store_lookup st clientIp of
        Missing \<Rightarrow> Inr (fresh_window now st clientIp)
      | Inherited \<Rightarrow> Inl (read_undefined_message ''filter'')
      | OwnEntry e \<Rightarrow>
          if resetTime e < now then Inr (fresh_window now st clientIp)
          else
            (let kept = filter (\<lambda>timestamp. timestamp > now - RATE_LIMIT_WINDOW) (downloads e);
                 n = int (length kept)
             in Inr (st(clientIp \<mapsto> e\<lparr>downloads := kept\<rparr>),
                     \<lparr>used = n, limit = HOURLY_LIMIT, remaining = max 0 (HOURLY_LIMIT - n),
                      info_resetTime = resetTime e\<rparr>)))"

definition checkRateLimitOnly :: "int \<Rightarrow> RateLimitStore \<Rightarrow> string \<Rightarrow> (RateLimitStore \<times> bool \<times> RateLimitInfo) result" where
  "checkRateLimitOnly now st clientIp =
     (case getRateLimitInfo now st clientIp of
        Inl err \<Rightarrow> Inl err
      | Inr (st', info) \<Rightarrow> Inr (st', remaining info > 0, info))"

definition recordDownload :: "int \<Rightarrow> RateLimitStore \<Rightarrow> string \<Rightarrow> (RateLimitStore \<times> RateLimitInfo) result" where
  "recordDownload now st clientIp =
     (case store_lookup st clientIp of
        Missing \<Rightarrow> getRateLimitInfo now st clientIp
      | Inherited \<Rightarrow> Inl (read_undefined_message ''push'')
      | OwnEntry e \<Rightarrow>
          getRateLimitInfo now (st(clientIp \<mapsto> e\<lparr>downloads := downloads e @ [now]\<rparr>)) clientIp)"

text \<open>Several \<^verbatim>\<open>record\<close> calls in a row, one at each of the given times, as long as none
  throws.\<close>

fun record_calls :: "int list \<Rightarrow> RateLimitStore \<Rightarrow> string \<Rightarrow> RateLimitStore result" where
  "record_calls [] st clientIp = Inr st"
| "record_calls (t # ts) st clientIp =
     (case recordDownload t st clientIp of
        Inl err \<Rightarrow> Inl err
      | Inr (st', info) \<Rightarrow> record_calls ts st' clientIp)"

text \<open>
  A request: its method, the parsed JSON body (absent, or an object with the optional
  members \<^verbatim>\<open>url\<close> and \<^verbatim>\<open>action\<close>), the \<^verbatim>\<open>x-forwarded-for\<close> header (absent, a string or a
  list of strings) and the socket's remote address.
\<close>

record body =
  req_url :: "string option"
  req_action :: "string option"

record request =
  req_method :: string
  req_body :: "body option"
  forwarded :: "(string + string list) option"
  remoteAddress :: "string option"

datatype payload =
    NoBody
  | ErrorBody string RateLimitInfo
  | SearchSuccess "BehanceImage list" RateLimitInfo
  | ClientSideDownload RateLimitInfo
  | DownloadRecorded RateLimitInfo
  | ServerError string RateLimitInfo

record response =
  status :: nat
  json :: payload

definition getClientIp :: "request \<Rightarrow> string" where
  "getClientIp req =
     (let ip = (case forwarded req of
                  None \<Rightarrow> remoteAddress req
                | Some (Inl s) \<Rightarrow> if s = [] then remoteAddress req else Some s
                | Some (Inr l) \<Rightarrow> (case l of [] \<Rightarrow> None | s # _ \<Rightarrow> Some s))
      in case ip of
           None \<Rightarrow> ''unknown''
         | Some s \<Rightarrow> if s = [] then ''unknown'' else s)"

definition rate_limit_message :: string where
  "rate_limit_message = ''Rate limit exceeded. Please try again later or upgrade to our Chrome extension for unlimited downloads.''"

definition destructure_message :: string where
  "destructure_message = ''Cannot destructure property url of req.body as it is undefined.''"

text \<open>
  \<^verbatim>\<open>res.status(code).json({..., rateLimit: getRateLimitInfo(clientIp)})\<close>: the body is built
  before it is sent, so when the snapshot throws no answer is sent and the error goes on.
\<close>

definition respond :: "nat \<Rightarrow> (RateLimitInfo \<Rightarrow> payload) \<Rightarrow> int \<Rightarrow> RateLimitStore \<Rightarrow> string
    \<Rightarrow> RateLimitStore \<times> response result" where
  "respond code content now st clientIp =
     (case getRateLimitInfo now st clientIp of
        Inl err \<Rightarrow> (st, Inl err)
      | Inr (st1, info) \<Rightarrow> (st1, Inr \<lparr>status = code, json = content info\<rparr>))"

text \<open>The \<^verbatim>\<open>search\<close> branch; \<open>Inr None\<close> when control falls out of it (an extraction that
  returns no image).\<close>

definition search_action :: "(string \<Rightarrow> BehanceImage list result) \<Rightarrow> int \<Rightarrow> RateLimitStore \<Rightarrow> string \<Rightarrow> string
    \<Rightarrow> RateLimitStore \<times> response option result" where
  "search_action extract now st clientIp u =
     (case checkRateLimitOnly now st clientIp of
        Inl err \<Rightarrow> (st, Inl err)
      | Inr (st1, allowed, info) \<Rightarrow>
          if \<not> allowed then (st1, Inr (Some \<lparr>status = 429, json = ErrorBody rate_limit_message info\<rparr>))
          else
            (case extract u of
               Inr images \<Rightarrow>
                 if length images > 0
                 then (st1, Inr (Some \<lparr>status = 200,
                         json = SearchSuccess
                           (map (\<lambda>i. i\<lparr>url := replace_at_start (lit ''//'') ''https://'' (url i)\<rparr>) images)
                           info\<rparr>))
                 else (st1, Inr None)
             | Inl e \<Rightarrow> (st1, Inr (Some \<lparr>status = 200, json = ClientSideDownload info\<rparr>))))"

definition download_action :: "int \<Rightarrow> RateLimitStore \<Rightarrow> string \<Rightarrow> RateLimitStore \<times> response option result" where
  "download_action now st clientIp =
     (case checkRateLimitOnly now st clientIp of
        Inl err \<Rightarrow> (st, Inl err)
      | Inr (st1, allowed, info) \<Rightarrow>
          if \<not> allowed then (st1, Inr (Some \<lparr>status = 429, json = ErrorBody rate_limit_message info\<rparr>))
          else
            (case recordDownload now st1 clientIp of
               Inl err \<Rightarrow> (st1, Inl err)
             | Inr (st2, updatedInfo) \<Rightarrow>
                 (st2, Inr (Some \<lparr>status = 200, json = DownloadRecorded updatedInfo\<rparr>))))"

text \<open>Several download requests of one client in a row, one at each of the given times, as
  the \<^verbatim>\<open>download\<close> branch serves them: each checks the quota and records when it is allowed.\<close>

fun download_calls :: "int list \<Rightarrow> RateLimitStore \<Rightarrow> string \<Rightarrow> RateLimitStore" where
  "download_calls [] st clientIp = st"
| "download_calls (t # ts) st clientIp = download_calls ts (fst (download_action t st clientIp)) clientIp"

text \<open>The \<^verbatim>\<open>try\<close> block of the \<^verbatim>\<open>POST\<close> branch: it returns an answer (\<open>Inr (Some r)\<close>), or
  control leaves it at its end (\<open>Inr None\<close>), or it throws.\<close>

definition post_try :: "(string \<Rightarrow> BehanceImage list result) \<Rightarrow> int \<Rightarrow> RateLimitStore \<Rightarrow> request
    \<Rightarrow> RateLimitStore \<times> response option result" where
  "post_try extract now st req =
     (case req_body req of
        None \<Rightarrow> (st, Inl destructure_message)
      | Some b \<Rightarrow>
          (let action = (case req_action b of None \<Rightarrow> ''search'' | Some a \<Rightarrow> a);
               clientIp = getClientIp req;
               u = (case req_url b of None \<Rightarrow> [] | Some v \<Rightarrow> v)
           in if u = [] then
                apsnd (map_sum id Some) (respond 400 (ErrorBody ''URL is required'') now st clientIp)
              else if \<not> str_includes u ''behance.net/gallery'' then
                apsnd (map_sum id Some) (respond 400 (ErrorBody ''Invalid Behance gallery URL'') now st clientIp)
              else if action = ''search'' then search_action extract now st clientIp u
              else if action = ''download'' then download_action now st clientIp
              else (st, Inr None)))"

definition method_not_allowed :: "int \<Rightarrow> RateLimitStore \<Rightarrow> request \<Rightarrow> RateLimitStore \<times> response result" where
  "method_not_allowed now st req =
     respond 405 (ErrorBody ''Method not allowed'') now st (getClientIp req)"

text \<open>The handler: \<open>Inl\<close> when an error leaves it, and it has sent no answer.\<close>

definition handler :: "(string \<Rightarrow> BehanceImage list result) \<Rightarrow> int \<Rightarrow> RateLimitStore \<Rightarrow> request
    \<Rightarrow> RateLimitStore \<times> response result" where
  "handler extract now st req =
     (if req_method req = ''OPTIONS'' then (st, Inr \<lparr>status = 200, json = NoBody\<rparr>)
      else if req_method req = ''POST'' then
        (case post_try extract now st req of
           (st1, Inr (Some r)) \<Rightarrow> (st1, Inr r)
         | (st1, Inr None) \<Rightarrow> method_not_allowed now st1 req
         | (st1, Inl err) \<Rightarrow> respond 500 (ServerError err) now st1 (getClientIp req))
      else method_not_allowed now st req)"

section \<open>The download page (pages/index)\<close>

definition MAX_RETRIES :: nat where
  "MAX_RETRIES = 3"

definition RETRY_DELAY :: nat where
  "RETRY_DELAY = 1000"

text \<open>
  What the page does to the outside is kept in a trace. The image transport is a parameter:
  \<open>fetch k u\<close> is the answer to the \<open>k\<close>-th image request of the run (counted from 0), made
  for the address \<open>u\<close>. The quota endpoint is this repository's own \<^const>\<open>handler\<close>, run on
  the server's store; a timer advances the clock by its delay.
\<close>

datatype get_response = GetError | GetOk string "string option"

record blob =
  blob_data :: string
  blob_type :: string

datatype event =
    Get string
  | Post body nat
  | PostThrown body
  | Wait nat
  | SaveFile string
  | SaveZip string "string list"

record world =
  store :: RateLimitStore
  clock :: int
  requests :: nat
  trace :: "event list"

record env =
  fetch :: "nat \<Rightarrow> string \<Rightarrow> get_response"
  extractImages :: "string \<Rightarrow> BehanceImage list result"
  client_forwarded :: "(string + string list) option"
  client_address :: "string option"

datatype download_mode = Individual | Zip

record home =
  rateLimitInfo :: "RateLimitInfo option"
  showRateLimitModal :: bool
  isPreviewMinimized :: bool
  isDownloading :: bool
  downloadedImages :: "string list"
  failedDownloads :: "string list"
  downloadProgress :: rat
  downloadMode :: download_mode

definition wait :: "nat \<Rightarrow> world \<Rightarrow> world" where
  "wait d w = w\<lparr>clock := clock w + int d, trace := trace w @ [Wait d]\<rparr>"

definition rateLimit_of :: "payload \<Rightarrow> RateLimitInfo option" where
  "rateLimit_of p =
     (case p of
        NoBody \<Rightarrow> None
      | ErrorBody e i \<Rightarrow> Some i
      | SearchSuccess xs i \<Rightarrow> Some i
      | ClientSideDownload i \<Rightarrow> Some i
      | DownloadRecorded i \<Rightarrow> Some i
      | ServerError e i \<Rightarrow> Some i)"

text \<open>\<^verbatim>\<open>axios.post('/api/download', b)\<close>: the handler answers; axios rejects a status
  outside 200..299. When an error leaves the handler, the handler has sent no answer, and
  what the server sends in its place is no success: axios rejects as well.\<close>

definition axios_post :: "env \<Rightarrow> world \<Rightarrow> body \<Rightarrow> world \<times> (response option + response)" where
  "axios_post E w b =
     (case handler (extractImages E) (clock w) (store w)
             \<lparr>req_method = ''POST'', req_body = Some b,
              forwarded = client_forwarded E, remoteAddress = client_address E\<rparr> of
        (st', Inr r) \<Rightarrow>
          (let w' = w\<lparr>store := st', trace := trace w @ [Post b (status r)]\<rparr>
           in if 200 \<le> status r \<and> status r < 300 then (w', Inr r) else (w', Inl (Some r)))
      | (st', Inl err) \<Rightarrow>
          (w\<lparr>store := st', trace := trace w @ [PostThrown b]\<rparr>, Inl None))"

text \<open>The page's own \<^verbatim>\<open>recordDownload\<close>: it posts the action alone, and throws what axios
  throws.\<close>

definition recordDownload_page :: "env \<Rightarrow> world \<Rightarrow> world \<times> (response option + RateLimitInfo option)" where
  "recordDownload_page E w =
     (case axios_post E w \<lparr>req_url = None, req_action = Some ''download''\<rparr> of
        (w', Inr r) \<Rightarrow> (w', Inr (rateLimit_of (json r)))
      | (w', Inl r) \<Rightarrow> (w', Inl r))"

definition axios_get :: "env \<Rightarrow> world \<Rightarrow> string \<Rightarrow> world \<times> get_response" where
  "axios_get E w u =
     (w\<lparr>requests := requests w + 1, trace := trace w @ [Get u]\<rparr>, fetch E (requests w) u)"

definition new_blob :: "string \<Rightarrow> string option \<Rightarrow> blob" where
  "new_blob d ct =
     \<lparr>blob_data = d,
      blob_type = (case ct of None \<Rightarrow> ''image/jpeg'' | Some t \<Rightarrow> if t = [] then ''image/jpeg'' else t)\<rparr>"

function downloadWithRetry :: "env \<Rightarrow> BehanceImage \<Rightarrow> nat \<Rightarrow> world \<times> home \<Rightarrow> (world \<times> home) \<times> blob option" where
  "downloadWithRetry E im attempt (w, h) =
     (case axios_get E w (url im) of
        (w1, GetOk d ct) \<Rightarrow>
          (case recordDownload_page E w1 of
             (w2, Inr newRateLimit) \<Rightarrow> ((w2, h\<lparr>rateLimitInfo := newRateLimit\<rparr>), Some (new_blob d ct))
           | (w2, Inl err) \<Rightarrow>
               if attempt < MAX_RETRIES
               then downloadWithRetry E im (attempt + 1) (wait (RETRY_DELAY * attempt) w2, h)
               else ((w2, h), None))
      | (w1, GetError) \<Rightarrow>
          if attempt < MAX_RETRIES
          then downloadWithRetry E im (attempt + 1) (wait (RETRY_DELAY * attempt) w1, h)
          else ((w1, h), None))"
  by pat_completeness auto
termination
  by (relation "measure (\<lambda>(E, im, attempt, s). MAX_RETRIES - attempt)") auto

declare downloadWithRetry.simps [simp del]

text \<open>\<^verbatim>\<open>image.filename.replace(/\.[^/.]+$/, '') + extension\<close>: the last extension of the
  name gives way to the one the content type names.\<close>

definition strip_extension :: "string \<Rightarrow> string" where
  "strip_extension s =
     (let ext = takeWhile (\<lambda>c. c \<noteq> CHR ''.'' \<and> c \<noteq> CHR ''/'') (rev s);
          front = drop (length ext) (rev s)
      in if ext \<noteq> [] \<and> front \<noteq> [] \<and> hd front = CHR ''.'' then rev (drop 1 front) else s)"

definition corrected_filename :: "BehanceImage \<Rightarrow> blob \<Rightarrow> string" where
  "corrected_filename im b =
     strip_extension (filename im)
       @ (if str_includes (blob_type b) ''webp'' then ''.webp''
          else if str_includes (blob_type b) ''png'' then ''.png''
          else ''.jpg'')"

definition progress :: "nat \<Rightarrow> nat \<Rightarrow> rat" where
  "progress completed n = of_nat completed / of_nat n * 100"

text \<open>The loop of \<^verbatim>\<open>downloadAsZip\<close>; its state holds the files added to the archive, the
  list \<^verbatim>\<open>failed\<close> and the counter \<^verbatim>\<open>completed\<close>.\<close>

fun zip_loop :: "env \<Rightarrow> nat \<Rightarrow> BehanceImage list \<Rightarrow> (world \<times> home) \<times> string list \<times> string list \<times> nat
    \<Rightarrow> (world \<times> home) \<times> string list \<times> string list \<times> nat" where
  "zip_loop E n [] s = s"
| "zip_loop E n (im # rest) (wh, files, failed, completed) =
     (case downloadWithRetry E im 1 wh of
        ((w1, h1), Some b) \<Rightarrow>
          zip_loop E n rest
            ((w1, h1\<lparr>downloadedImages := downloadedImages h1 @ [corrected_filename im b],
                     downloadProgress := progress (completed + 1) n\<rparr>),
             files @ [corrected_filename im b], failed, completed + 1)
      | ((w1, h1), None) \<Rightarrow>
          zip_loop E n rest
            ((w1, h1\<lparr>downloadProgress := progress (completed + 1) n\<rparr>),
             files, failed @ [filename im], completed + 1))"

definition downloadAsZip :: "env \<Rightarrow> BehanceImage list \<Rightarrow> world \<times> home \<Rightarrow> world \<times> home" where
  "downloadAsZip E images wh =
     (case zip_loop E (length images) images (wh, [], [], 0) of
        ((w1, h1), files, failed, completed) \<Rightarrow>
          (let h2 = (if length failed > 0 then h1\<lparr>failedDownloads := failed\<rparr> else h1);
               stem = (case images of
                         [] \<Rightarrow> []
                       | i # _ \<Rightarrow> takeWhile (\<lambda>c. c \<noteq> CHR ''_'') (filename i));
               projectName = (if stem = [] then ''behance-gallery'' else stem)
           in (w1\<lparr>trace := trace w1 @ [SaveZip (projectName @ ''-gallery.zip'') files]\<rparr>, h2)))"

fun individual_loop :: "env \<Rightarrow> nat \<Rightarrow> BehanceImage list \<Rightarrow> (world \<times> home) \<times> string list \<times> nat
    \<Rightarrow> (world \<times> home) \<times> string list \<times> nat" where
  "individual_loop E n [] s = s"
| "individual_loop E n (im # rest) (wh, failed, completed) =
     (case downloadWithRetry E im 1 wh of
        ((w1, h1), Some b) \<Rightarrow>
          individual_loop E n rest
            ((wait 500 (w1\<lparr>trace := trace w1 @ [SaveFile (corrected_filename im b)]\<rparr>),
              h1\<lparr>downloadedImages := downloadedImages h1 @ [corrected_filename im b],
                 downloadProgress := progress (completed + 1) n\<rparr>),
             failed, completed + 1)
      | ((w1, h1), None) \<Rightarrow>
          individual_loop E n rest
            ((wait 500 w1, h1\<lparr>downloadProgress := progress (completed + 1) n\<rparr>),
             failed @ [filename im], completed + 1))"

definition downloadIndividually :: "env \<Rightarrow> BehanceImage list \<Rightarrow> world \<times> home \<Rightarrow> world \<times> home" where
  "downloadIndividually E images wh =
     (case individual_loop E (length images) images (wh, [], 0) of
        ((w1, h1), failed, completed) \<Rightarrow>
          (w1, if length failed > 0 then h1\<lparr>failedDownloads := failed\<rparr> else h1))"

definition downloadImages :: "env \<Rightarrow> BehanceImage list \<Rightarrow> world \<times> home \<Rightarrow> world \<times> home" where
  "downloadImages E images wh =
     (let (w, h) = wh;
          h0 = h\<lparr>isDownloading := True, downloadedImages := [], downloadProgress := 0,
                 failedDownloads := []\<rparr>;
          (w1, h1) = (if downloadMode h = Zip then downloadAsZip E images (w, h0)
                      else downloadIndividually E images (w, h0))
      in (w1, h1\<lparr>isDownloading := False\<rparr>))"

definition handleDownload :: "env \<Rightarrow> BehanceImage list \<Rightarrow> world \<times> home \<Rightarrow> world \<times> home" where
  "handleDownload E selectedImages wh =
     (let (w, h) = wh
      in if length selectedImages = 0 then (w, h)
         else if (case rateLimitInfo h of
                    None \<Rightarrow> False
                  | Some i \<Rightarrow> remaining i < int (length selectedImages))
         then (w, h\<lparr>showRateLimitModal := True\<rparr>)
         else downloadImages E selectedImages (w, h\<lparr>isPreviewMinimized := True\<rparr>))"

text \<open>The image requests of a trace, and the quota units a run has taken from a client.\<close>

definition fetched :: "event list \<Rightarrow> string list" where
  "fetched tr = concat (map (\<lambda>e. case e of Get u \<Rightarrow> [u] | _ \<Rightarrow> []) tr)"

definition recorded :: "RateLimitStore \<Rightarrow> string \<Rightarrow> nat" where
  "recorded st clientIp = (case st clientIp of None \<Rightarrow> 0 | Some e \<Rightarrow> length (downloads e))"

text \<open>
  The chain of substitutions of \<^verbatim>\<open>getHighestQualityUrl\<close> once more, as a list of steps (the
  \<^verbatim>\<open>g\<close> flag, the pattern, the replacement), and what the claims about it speak of: a
  low-resolution marker is a match of one of these patterns somewhere in the address, the
  maximum resolution token is the text \<^verbatim>\<open>/original/\<close> or \<^verbatim>\<open>2000\<close>.
\<close>

type_synonym step = "bool \<times> matcher \<times> string"

definition apply_step :: "step \<Rightarrow> string \<Rightarrow> string" where
  "apply_step st s =
     (case st of (g, m, rep) \<Rightarrow> if g then replace_all m rep s else replace_first m rep s)"

definition sizes :: "string list" where
  "sizes = [''200'', ''400'', ''600'', ''800'', ''1400'']"

definition path_steps :: "step list" where
  "path_steps =
     (False, fs_segment, ''/original/'') # map (\<lambda>n. (False, size_segment n, ''/2000/'')) sizes"

definition suffix_pattern :: "string \<Rightarrow> string" where
  "suffix_pattern n = ''_'' @ n @ ''.''"

definition suffix_steps :: "step list" where
  "suffix_steps = map (\<lambda>n. (True, lit (suffix_pattern n), ''_2000.'')) sizes"

definition low_res_marker :: "string \<Rightarrow> bool" where
  "low_res_marker s = list_ex (\<lambda>st. regex_test (fst (snd st)) s) (path_steps @ suffix_steps)"

definition max_resolution_token :: "string \<Rightarrow> bool" where
  "max_resolution_token s = (str_includes s ''/original/'' \<or> str_includes s ''2000'')"

text \<open>
  The path segments of an address: the address is split at its slashes, and the interior
  segments are those with a slash on either side. A size pattern matches where an interior
  segment is the size, with or without the letter \<^verbatim>\<open>H\<close>; the \<^verbatim>\<open>/fs/\<close> pattern matches where an
  interior segment \<^verbatim>\<open>fs\<close> is followed by an interior segment with no line terminator. An
  address has unique path markers when no path segment pattern matches at two places.
\<close>

fun split_slash :: "string \<Rightarrow> string list" where
  "split_slash [] = [[]]"
| "split_slash (c # cs) =
     (if c = CHR ''/'' then [] # split_slash cs
      else (case split_slash cs of [] \<Rightarrow> [[c]] | x # xs \<Rightarrow> (c # x) # xs))"

definition interior :: "string \<Rightarrow> string list" where
  "interior s = butlast (tl (split_slash s))"

definition size_hit :: "string \<Rightarrow> string \<Rightarrow> bool" where
  "size_hit n seg = (seg = n @ ''H'' \<or> seg = n)"

fun fs_count :: "string list \<Rightarrow> nat" where
  "fs_count (y # z # ys) =
     (if y = ''fs'' \<and> list_all (\<lambda>c. \<not> line_terminator c) z then 1 else 0) + fs_count (z # ys)"
| "fs_count ys = 0"

definition path_markers_unique :: "string \<Rightarrow> bool" where
  "path_markers_unique s =
     (fs_count (interior s) \<le> 1
      \<and> list_all (\<lambda>n. length (filter (size_hit n) (interior s)) \<le> 1) sizes)"

text \<open>What the substitutions do to the list of segments: a size step rewrites the first
  interior segment that is a hit, the \<^verbatim>\<open>/fs/\<close> step rewrites the first hit and the segment
  after it.\<close>

fun upd_first :: "('a \<Rightarrow> bool) \<Rightarrow> 'a \<Rightarrow> 'a list \<Rightarrow> 'a list" where
  "upd_first P v [] = []"
| "upd_first P v (y # ys) = (if P y then v # ys else y # upd_first P v ys)"

fun fs_rewrite :: "string list \<Rightarrow> string list" where
  "fs_rewrite (y # z # ys) =
     (if y = ''fs'' \<and> list_all (\<lambda>c. \<not> line_terminator c) z then ''original'' # ys
      else y # fs_rewrite (z # ys))"
| "fs_rewrite ys = ys"

definition inner_upd :: "(string \<Rightarrow> bool) \<Rightarrow> string \<Rightarrow> string list \<Rightarrow> string list" where
  "inner_upd P v inner = (if inner = [] then [] else upd_first P v (butlast inner) @ [last inner])"

definition fs_hit :: "string \<Rightarrow> string \<Rightarrow> bool" where
  "fs_hit y z = (y = ''fs'' \<and> list_all (\<lambda>c. \<not> line_terminator c) z)"

definition fs_inner :: "string list \<Rightarrow> string list" where
  "fs_inner inner = (if inner = [] then [] else fs_rewrite (butlast inner) @ [last inner])"

section \<open>Scenarios\<close>

text \<open>The fixed parts of the concrete runs below: a client at one address, a page that is
  idle, a world whose clock stands at 0, and a selection of five descriptors.\<close>

definition scenario_env :: "(nat \<Rightarrow> string \<Rightarrow> get_response) \<Rightarrow> env" where
  "scenario_env f =
     \<lparr>fetch = f, extractImages = (\<lambda>u. Inl ''unused''),
      client_forwarded = None, client_address = Some ''10.0.0.1''\<rparr>"

definition idle_home :: "RateLimitInfo option \<Rightarrow> download_mode \<Rightarrow> home" where
  "idle_home info m =
     \<lparr>rateLimitInfo = info, showRateLimitModal = False, isPreviewMinimized = False,
      isDownloading = False, downloadedImages = [], failedDownloads = [],
      downloadProgress = 0, downloadMode = m\<rparr>"

definition world_at_0 :: "RateLimitStore \<Rightarrow> world" where
  "world_at_0 st = \<lparr>store = st, clock = 0, requests = 0, trace = []\<rparr>"

definition five_images :: "BehanceImage list" where
  "five_images =
     [\<lparr>url = ''https://mir-s3-cdn-cf.behance.net/project_modules/2000/a.jpg'', filename = ''title_1.jpg''\<rparr>,
      \<lparr>url = ''https://mir-s3-cdn-cf.behance.net/project_modules/2000/b.jpg'', filename = ''title_2.jpg''\<rparr>,
      \<lparr>url = ''https://mir-s3-cdn-cf.behance.net/project_modules/2000/c.jpg'', filename = ''title_3.jpg''\<rparr>,
      \<lparr>url = ''https://mir-s3-cdn-cf.behance.net/project_modules/2000/d.jpg'', filename = ''title_4.jpg''\<rparr>,
      \<lparr>url = ''https://mir-s3-cdn-cf.behance.net/project_modules/2000/e.jpg'', filename = ''title_5.jpg''\<rparr>]"

section \<open>The quota store: windows, peeks and records\<close>

lemma store_lookup_own: "st k = Some e \<Longrightarrow> store_lookup st k = OwnEntry e"
  by (simp add: store_lookup_def)

lemma recordDownload_counts:
  assumes "st k = Some e" and "lo < t" and "t \<le> lo + RATE_LIMIT_WINDOW" and "t \<le> resetTime e"
  shows "\<exists>st1 i e'. recordDownload t st k = Inr (st1, i) \<and> st1 k = Some e' \<and> resetTime e' = resetTime e
           \<and> length (filter (\<lambda>x. lo < x) (downloads e')) = Suc (length (filter (\<lambda>x. lo < x) (downloads e)))"
proof -
  have keep: "filter (\<lambda>x. lo < x) (filter (\<lambda>x. t - RATE_LIMIT_WINDOW < x) xs) = filter (\<lambda>x. lo < x) xs" for xs
    using assms(3) by (induction xs) auto
  have "0 < RATE_LIMIT_WINDOW"
    by (simp add: RATE_LIMIT_WINDOW_def)
  then show ?thesis
    using assms keep by (simp add: recordDownload_def getRateLimitInfo_def store_lookup_def Let_def)
qed

lemma record_calls_counts:
  assumes "st k = Some e"
    and "\<forall>t\<in>set ts. lo < t \<and> t \<le> lo + RATE_LIMIT_WINDOW \<and> t \<le> resetTime e"
  shows "\<exists>st1 e'. record_calls ts st k = Inr st1 \<and> st1 k = Some e' \<and> resetTime e' = resetTime e
           \<and> length (filter (\<lambda>x. lo < x) (downloads e')) = length (filter (\<lambda>x. lo < x) (downloads e)) + length ts"
  using assms
proof (induction ts arbitrary: st e)
  case Nil
  then show ?case by simp
next
  case (Cons t ts)
  from Cons.prems obtain s1 i e1 where e1: "recordDownload t st k = Inr (s1, i)" "s1 k = Some e1"
    "resetTime e1 = resetTime e"
    "length (filter (\<lambda>x. lo < x) (downloads e1)) = Suc (length (filter (\<lambda>x. lo < x) (downloads e)))"
    using recordDownload_counts [of st k e lo t] by auto
  have "\<forall>t\<in>set ts. lo < t \<and> t \<le> lo + RATE_LIMIT_WINDOW \<and> t \<le> resetTime e1"
    using Cons.prems(2) e1(3) by simp
  then have "\<exists>st1 e'. record_calls ts s1 k = Inr st1 \<and> st1 k = Some e' \<and> resetTime e' = resetTime e1
           \<and> length (filter (\<lambda>x. lo < x) (downloads e')) = length (filter (\<lambda>x. lo < x) (downloads e1)) + length ts"
    using Cons.IH [of s1 e1] e1(2) by blast
  with e1 show ?case
    by auto
qed

text \<open>A record call for a key with neither a window nor an inherited member of its name is
  the peek that opens the window: nothing is recorded.\<close>

lemma recordDownload_without_window:
  assumes "store_lookup st k = Missing"
  shows "recordDownload now st k = getRateLimitInfo now st k"
    and "\<exists>st1 i. recordDownload now st k = Inr (st1, i) \<and> recorded st1 k = 0"
  using assms by (simp_all add: recordDownload_def getRateLimitInfo_def fresh_window_def recorded_def)

text \<open>
  Claim C2, as the code has it. A key has a window (\<open>st k = Some e\<close>) that is not expired at
  the time \<open>t\<close> of the check, and \<open>HOURLY_LIMIT\<close> record calls are made at times \<open>ts\<close> that all
  lie less than one window size before \<open>t\<close>: every record call returns, the peek at \<open>t\<close>
  reports \<open>remaining = 0\<close> and \<^verbatim>\<open>tryConsume\<close> reports \<open>allowed = False\<close>. A peek at a time \<open>t'\<close>
  later than the reset time of a window reports \<open>used = 0\<close>, \<open>remaining = HOURLY_LIMIT\<close> and
  the new, later reset time \<open>t' + RATE_LIMIT_WINDOW\<close>.
\<close>

theorem quota_window:
  assumes "st k = Some e"
    and "t \<le> resetTime e"
    and "\<forall>ti\<in>set ts. t - RATE_LIMIT_WINDOW < ti \<and> ti \<le> t"
    and "int (length ts) = HOURLY_LIMIT"
    and "st' k' = Some e'"
    and "resetTime e' < t'"
  shows "(\<exists>st1 st2 i. record_calls ts st k = Inr st1
            \<and> getRateLimitInfo t st1 k = Inr (st2, i) \<and> remaining i = 0
            \<and> checkRateLimitOnly t st1 k = Inr (st2, False, i))
       \<and> (\<exists>st3 i'. getRateLimitInfo t' st' k' = Inr (st3, i')
            \<and> used i' = 0 \<and> remaining i' = HOURLY_LIMIT
            \<and> info_resetTime i' = t' + RATE_LIMIT_WINDOW
            \<and> resetTime e' < info_resetTime i')"
proof -
  have "\<forall>ti\<in>set ts. t - RATE_LIMIT_WINDOW < ti \<and> ti \<le> (t - RATE_LIMIT_WINDOW) + RATE_LIMIT_WINDOW \<and> ti \<le> resetTime e"
    using assms(2,3) by auto
  with assms(1) record_calls_counts [of st k e ts "t - RATE_LIMIT_WINDOW"]
  obtain st1 e2 where e2: "record_calls ts st k = Inr st1" "st1 k = Some e2" "resetTime e2 = resetTime e"
    "length (filter (\<lambda>x. t - RATE_LIMIT_WINDOW < x) (downloads e2))
       = length (filter (\<lambda>x. t - RATE_LIMIT_WINDOW < x) (downloads e)) + length ts"
    by blast
  then have full: "HOURLY_LIMIT \<le> int (length (filter (\<lambda>x. t - RATE_LIMIT_WINDOW < x) (downloads e2)))"
    using assms(4) by simp
  have "\<exists>st2 i. getRateLimitInfo t st1 k = Inr (st2, i) \<and> remaining i = 0"
    using e2(2,3) assms(2) full by (simp add: getRateLimitInfo_def store_lookup_def Let_def)
  then obtain st2 i where a: "getRateLimitInfo t st1 k = Inr (st2, i)" "remaining i = 0"
    by blast
  then have b: "checkRateLimitOnly t st1 k = Inr (st2, False, i)"
    by (simp add: checkRateLimitOnly_def)
  have first: "\<exists>st1 st2 i. record_calls ts st k = Inr st1
            \<and> getRateLimitInfo t st1 k = Inr (st2, i) \<and> remaining i = 0
            \<and> checkRateLimitOnly t st1 k = Inr (st2, False, i)"
    using e2(1) a b by blast
  have c: "getRateLimitInfo t' st' k' = Inr (fresh_window t' st' k')"
    using assms(5,6) by (simp add: getRateLimitInfo_def store_lookup_def)
  have d: "0 < RATE_LIMIT_WINDOW"
    by (simp add: RATE_LIMIT_WINDOW_def)
  have second: "\<exists>st3 i'. getRateLimitInfo t' st' k' = Inr (st3, i')
            \<and> used i' = 0 \<and> remaining i' = HOURLY_LIMIT
            \<and> info_resetTime i' = t' + RATE_LIMIT_WINDOW
            \<and> resetTime e' < info_resetTime i'"
    using c d assms(6) by (simp add: fresh_window_def)
  from first second show ?thesis ..
qed

theorem quota_window_witness:
  "(\<exists>st1 st2 i. record_calls (replicate 20 0) [''k'' \<mapsto> \<lparr>downloads = [], resetTime = 3600000\<rparr>] ''k'' = Inr st1
       \<and> getRateLimitInfo 10 st1 ''k'' = Inr (st2, i) \<and> remaining i = 0
       \<and> checkRateLimitOnly 10 st1 ''k'' = Inr (st2, False, i))
   \<and> map_sum id snd (getRateLimitInfo 3600001 [''k'' \<mapsto> \<lparr>downloads = [0, 0, 0], resetTime = 3600000\<rparr>] ''k'')
        = Inr \<lparr>used = 0, limit = 20, remaining = 20, info_resetTime = 7200001\<rparr>"
proof -
  have "(\<exists>st1 st2 i. record_calls (replicate 20 0) [''k'' \<mapsto> \<lparr>downloads = [], resetTime = 3600000\<rparr>] ''k'' = Inr st1
       \<and> getRateLimitInfo 10 st1 ''k'' = Inr (st2, i) \<and> remaining i = 0
       \<and> checkRateLimitOnly 10 st1 ''k'' = Inr (st2, False, i))"
    using quota_window [of "[''k'' \<mapsto> \<lparr>downloads = [], resetTime = 3600000\<rparr>]" "''k''"
      "\<lparr>downloads = [], resetTime = 3600000\<rparr>" 10 "replicate 20 0"
      "[''k'' \<mapsto> \<lparr>downloads = [0, 0, 0], resetTime = 3600000\<rparr>]" "''k''"
      "\<lparr>downloads = [0, 0, 0], resetTime = 3600000\<rparr>" 3600001]
    by (simp add: HOURLY_LIMIT_def RATE_LIMIT_WINDOW_def)
  moreover have "map_sum id snd (getRateLimitInfo 3600001 [''k'' \<mapsto> \<lparr>downloads = [0, 0, 0], resetTime = 3600000\<rparr>] ''k'')
        = Inr \<lparr>used = 0, limit = 20, remaining = 20, info_resetTime = 7200001\<rparr>"
    by (simp add: HOURLY_LIMIT_def RATE_LIMIT_WINDOW_def getRateLimitInfo_def store_lookup_def fresh_window_def)
  ultimately show ?thesis ..
qed

text \<open>
  Claim C2 as it is stated fails at the instant of the reset time. A peek at time 0 opens the
  window of a client, with the reset time 3600000. Twenty record calls follow within the
  window, the first in the same millisecond, the others one second later; twenty download
  requests at these times, served from the empty store, leave the same store. At 3600000 the
  window is not expired, since its reset time is not before that instant, but the event
  recorded at 0 is a full window size old and is pruned: the peek reports \<open>used = 19\<close> and
  \<open>remaining = 1\<close> with the old reset time, and \<^verbatim>\<open>tryConsume\<close> reports \<open>allowed = True\<close>.
\<close>

theorem quota_reset_instant_counterexample:
  "map_sum id fst (getRateLimitInfo 0 Map.empty ''10.0.0.1'')
     = Inr [''10.0.0.1'' \<mapsto> \<lparr>downloads = [], resetTime = 3600000\<rparr>]
   \<and> record_calls (0 # replicate 19 1000) [''10.0.0.1'' \<mapsto> \<lparr>downloads = [], resetTime = 3600000\<rparr>] ''10.0.0.1''
     = Inr [''10.0.0.1'' \<mapsto> \<lparr>downloads = 0 # replicate 19 1000, resetTime = 3600000\<rparr>]
   \<and> download_calls (0 # replicate 19 1000) Map.empty ''10.0.0.1''
     = [''10.0.0.1'' \<mapsto> \<lparr>downloads = 0 # replicate 19 1000, resetTime = 3600000\<rparr>]
   \<and> checkRateLimitOnly 3600000
       [''10.0.0.1'' \<mapsto> \<lparr>downloads = 0 # replicate 19 1000, resetTime = 3600000\<rparr>] ''10.0.0.1''
     = Inr ([''10.0.0.1'' \<mapsto> \<lparr>downloads = replicate 19 1000, resetTime = 3600000\<rparr>], True,
            \<lparr>used = 19, limit = 20, remaining = 1, info_resetTime = 3600000\<rparr>)
   \<and> map_sum id snd (getRateLimitInfo 3600000
       [''10.0.0.1'' \<mapsto> \<lparr>downloads = 0 # replicate 19 1000, resetTime = 3600000\<rparr>] ''10.0.0.1'')
     = Inr \<lparr>used = 19, limit = 20, remaining = 1, info_resetTime = 3600000\<rparr>"
  by (simp add: download_action_def checkRateLimitOnly_def recordDownload_def getRateLimitInfo_def
      store_lookup_def Object_prototype_members_def fresh_window_def HOURLY_LIMIT_def
      RATE_LIMIT_WINDOW_def Let_def numeral_eq_Suc)

text \<open>On a key that does not name an inherited member, or that has a window of its own,
  \<^verbatim>\<open>tryConsume\<close> (\<^const>\<open>checkRateLimitOnly\<close>) returns the store and the info of the peek
  (\<^const>\<open>getRateLimitInfo\<close>) at the same instant, with \<open>allowed = (remaining > 0)\<close>. After the
  peek the key has a window whose events are the old events that are less than one window size
  old, in their old order, or no event when the window was absent or expired; the reset time
  of a live window is kept; nothing is appended, and no other key's window changes.\<close>

lemma peek_frame_without_inherited_member:
  assumes "store_lookup st k \<noteq> Inherited"
  shows "\<exists>st1 i e'. getRateLimitInfo now st k = Inr (st1, i)
       \<and> checkRateLimitOnly now st k = Inr (st1, remaining i > 0, i)
       \<and> st1 k = Some e'
       \<and> downloads e' =
           (case st k of
              None \<Rightarrow> []
            | Some e \<Rightarrow> if resetTime e < now then []
                       else filter (\<lambda>t. now - RATE_LIMIT_WINDOW < t) (downloads e))
       \<and> resetTime e' =
           (case st k of
              None \<Rightarrow> now + RATE_LIMIT_WINDOW
            | Some e \<Rightarrow> if resetTime e < now then now + RATE_LIMIT_WINDOW else resetTime e)
       \<and> (\<forall>k'. k' \<noteq> k \<longrightarrow> st1 k' = st k')
       \<and> used i = int (length (downloads e'))
       \<and> remaining i = max 0 (HOURLY_LIMIT - used i)"
  using assms
  by (auto simp: checkRateLimitOnly_def getRateLimitInfo_def store_lookup_def fresh_window_def
      HOURLY_LIMIT_def Let_def split: option.splits if_splits)

text \<open>
  Claim C9 at a client key that names a member every object inherits, such as
  \<^verbatim>\<open>constructor\<close>, and that has no window of its own: the peek (\<^const>\<open>getRateLimitInfo\<close>) does
  not open a window, it throws a \<^verbatim>\<open>TypeError\<close> where it filters the events, and so does
  \<^verbatim>\<open>tryConsume\<close> (\<^const>\<open>checkRateLimitOnly\<close>). The claim has the peek never fail.
\<close>

theorem peek_inherited_member_throws:
  assumes "k \<in> set Object_prototype_members" and "st k = None"
  shows "getRateLimitInfo now st k = Inl (read_undefined_message ''filter'')
       \<and> checkRateLimitOnly now st k = Inl (read_undefined_message ''filter'')"
  using assms by (simp add: checkRateLimitOnly_def getRateLimitInfo_def store_lookup_def)

theorem peek_inherited_member_throws_witness:
  "getRateLimitInfo 0 Map.empty ''constructor'' = Inl ''Cannot read properties of undefined (reading filter)''
   \<and> checkRateLimitOnly 0 Map.empty ''constructor'' = Inl ''Cannot read properties of undefined (reading filter)''"
  using peek_inherited_member_throws [of "''constructor''" Map.empty 0]
  by (simp add: Object_prototype_members_def read_undefined_message_def)

section \<open>The request handler\<close>

lemma str_includes_nonempty: "str_includes u sub \<Longrightarrow> sub \<noteq> [] \<Longrightarrow> u \<noteq> []"
  by (cases u) auto

text \<open>A \<^verbatim>\<open>POST\<close> whose body carries a gallery URL (one that holds \<^verbatim>\<open>behance.net/gallery\<close>) and
  an action that is neither \<^verbatim>\<open>search\<close> nor \<^verbatim>\<open>download\<close> falls through both branches to the last
  statement of the handler. When the snapshot of the client's quota can be taken, the answer
  is status 405 with the error \<^verbatim>\<open>Method not allowed\<close> and the snapshot.\<close>

lemma handler_unknown_action_falls_through:
  assumes "req_method req = ''POST''"
    and "req_body req = Some b"
    and "req_url b = Some u"
    and "str_includes u ''behance.net/gallery''"
    and "req_action b = Some a"
    and "a \<noteq> ''search''"
    and "a \<noteq> ''download''"
  shows "handler ex now st req = method_not_allowed now st req"
    and "getRateLimitInfo now st (getClientIp req) = Inr (st1, info) \<Longrightarrow>
           handler ex now st req = (st1, Inr \<lparr>status = 405, json = ErrorBody ''Method not allowed'' info\<rparr>)"
proof -
  have "u \<noteq> []"
    using assms(4) str_includes_nonempty by fastforce
  then show fall: "handler ex now st req = method_not_allowed now st req"
    using assms by (simp add: handler_def post_try_def)
  show "getRateLimitInfo now st (getClientIp req) = Inr (st1, info) \<Longrightarrow>
           handler ex now st req = (st1, Inr \<lparr>status = 405, json = ErrorBody ''Method not allowed'' info\<rparr>)"
    by (simp add: fall method_not_allowed_def respond_def)
qed

lemma handler_unknown_action_example:
  "handler (\<lambda>u. Inl ''unused'') 5 Map.empty
     \<lparr>req_method = ''POST'',
      req_body = Some \<lparr>req_url = Some ''https://www.behance.net/gallery/1/x'', req_action = Some ''status''\<rparr>,
      forwarded = None, remoteAddress = Some ''10.0.0.1''\<rparr>
   = (Map.empty(''10.0.0.1'' \<mapsto> \<lparr>downloads = [], resetTime = 3600005\<rparr>),
      Inr \<lparr>status = 405,
           json = ErrorBody ''Method not allowed''
                    \<lparr>used = 0, limit = 20, remaining = 20, info_resetTime = 3600005\<rparr>\<rparr>)"
proof -
  have "getRateLimitInfo 5 Map.empty ''10.0.0.1''
          = Inr (Map.empty(''10.0.0.1'' \<mapsto> \<lparr>downloads = [], resetTime = 3600005\<rparr>),
                 \<lparr>used = 0, limit = 20, remaining = 20, info_resetTime = 3600005\<rparr>)"
    by (simp add: getRateLimitInfo_def store_lookup_def Object_prototype_members_def fresh_window_def
        HOURLY_LIMIT_def RATE_LIMIT_WINDOW_def)
  then show ?thesis
    using handler_unknown_action_falls_through(2) [of
      "\<lparr>req_method = ''POST'',
        req_body = Some \<lparr>req_url = Some ''https://www.behance.net/gallery/1/x'', req_action = Some ''status''\<rparr>,
        forwarded = None, remoteAddress = Some ''10.0.0.1''\<rparr>"
      "\<lparr>req_url = Some ''https://www.behance.net/gallery/1/x'', req_action = Some ''status''\<rparr>"
      "''https://www.behance.net/gallery/1/x''" "''status''" 5 Map.empty]
    by (simp add: getClientIp_def)
qed

text \<open>
  Claim C10 at a request whose client key names a member every object inherits (the header
  \<^verbatim>\<open>x-forwarded-for: constructor\<close>) and has no window of its own. The request is a \<^verbatim>\<open>POST\<close>
  with a gallery URL and an action that is neither \<^verbatim>\<open>search\<close> nor \<^verbatim>\<open>download\<close>; it falls
  through both branches, and the last statement of the handler throws while it takes the
  quota snapshot for the body of its answer: the error leaves the handler and no answer with
  status 405 is sent. The claim has the request answered with 405 and a snapshot.
\<close>

theorem handler_unknown_action_throws:
  assumes "req_method req = ''POST''"
    and "req_body req = Some b"
    and "req_url b = Some u"
    and "str_includes u ''behance.net/gallery''"
    and "req_action b = Some a"
    and "a \<noteq> ''search''"
    and "a \<noteq> ''download''"
    and "getClientIp req \<in> set Object_prototype_members"
    and "st (getClientIp req) = None"
  shows "handler ex now st req = (st, Inl (read_undefined_message ''filter''))"
proof -
  have "u \<noteq> []"
    using assms(4) str_includes_nonempty by fastforce
  then show ?thesis
    using assms
    by (simp add: handler_def post_try_def method_not_allowed_def respond_def getRateLimitInfo_def
        store_lookup_def)
qed

lemma gallery_url_example: "str_includes ''https://www.behance.net/gallery/1/x'' ''behance.net/gallery''"
  by code_simp

theorem handler_unknown_action_throws_witness:
  "handler (\<lambda>u. Inl ''unused'') 5 Map.empty
     \<lparr>req_method = ''POST'',
      req_body = Some \<lparr>req_url = Some ''https://www.behance.net/gallery/1/x'', req_action = Some ''status''\<rparr>,
      forwarded = Some (Inl ''constructor''), remoteAddress = Some ''10.0.0.1''\<rparr>
   = (Map.empty, Inl ''Cannot read properties of undefined (reading filter)'')"
  using handler_unknown_action_throws [of
      "\<lparr>req_method = ''POST'',
        req_body = Some \<lparr>req_url = Some ''https://www.behance.net/gallery/1/x'', req_action = Some ''status''\<rparr>,
        forwarded = Some (Inl ''constructor''), remoteAddress = Some ''10.0.0.1''\<rparr>"
      "\<lparr>req_url = Some ''https://www.behance.net/gallery/1/x'', req_action = Some ''status''\<rparr>"
      "''https://www.behance.net/gallery/1/x''" "''status''" Map.empty "\<lambda>u. Inl ''unused''" 5]
    gallery_url_example
  by (simp add: getClientIp_def Object_prototype_members_def read_undefined_message_def)

section \<open>Gallery addresses\<close>

lemma takeWhile_query:
  assumes "CHR ''?'' \<notin> set b" and "set s \<subseteq> {CHR ''/''}" and "q = [] \<or> hd q = CHR ''?''"
  shows "takeWhile (\<lambda>c. c \<noteq> CHR ''?'') (b @ s @ q) = b @ s"
proof -
  have bs: "\<And>c. c \<in> set (b @ s) \<Longrightarrow> c \<noteq> CHR ''?''"
    using assms(1,2) by auto
  have q: "takeWhile (\<lambda>c. c \<noteq> CHR ''?'') q = []"
    using assms(3) by (cases q) auto
  have "takeWhile (\<lambda>c. c \<noteq> CHR ''?'') ((b @ s) @ q) = (b @ s) @ takeWhile (\<lambda>c. c \<noteq> CHR ''?'') q"
    by (rule takeWhile_append2) (rule bs)
  then show ?thesis
    by (simp add: q)
qed

lemma strip_trailing_slashes_append:
  assumes "set s \<subseteq> {CHR ''/''}"
  shows "strip_trailing_slashes (b @ s) = strip_trailing_slashes b"
proof -
  have "dropWhile (\<lambda>c. c = CHR ''/'') (rev s @ rev b) = dropWhile (\<lambda>c. c = CHR ''/'') (rev b)"
    by (rule dropWhile_append2) (use assms in auto)
  then show ?thesis
    by (simp add: strip_trailing_slashes_def)
qed

lemma clean_url_canonical:
  assumes "CHR ''?'' \<notin> set b" and "set s \<subseteq> {CHR ''/''}" and "q = [] \<or> hd q = CHR ''?''"
  shows "strip_trailing_slashes (takeWhile (\<lambda>c. c \<noteq> CHR ''?'') (b @ s @ q)) = strip_trailing_slashes b"
  by (simp only: takeWhile_query [OF assms] strip_trailing_slashes_append [OF assms(2)])

lemma validateAndCleanUrl_Inr:
  assumes "validateAndCleanUrl u = Inr c"
  shows "c = strip_trailing_slashes (takeWhile (\<lambda>c. c \<noteq> CHR ''?'') u)"
proof -
  define k where "k = strip_trailing_slashes (takeWhile (\<lambda>c. c \<noteq> CHR ''?'') u)"
  have "validateAndCleanUrl u = Inr k \<or> (\<exists>e. validateAndCleanUrl u = Inl e)"
    unfolding validateAndCleanUrl_def k_def [symmetric] Let_def by simp
  with assms show ?thesis
    unfolding k_def [symmetric] by auto
qed

text \<open>
  Claim C6. Two addresses that differ only by a query string and by trailing slashes are
  \<open>b @ s1 @ q1\<close> and \<open>b @ s2 @ q2\<close>: a common part \<open>b\<close> with no question mark, runs of slashes
  \<open>s1\<close> and \<open>s2\<close>, and query strings \<open>q1\<close> and \<open>q2\<close>, each empty or opened by a question mark.
  \<^const>\<open>validateAndCleanUrl\<close> gives both the same result: both are refused with the same error,
  or both are accepted with the same canonical address, \<open>b\<close> without its trailing slashes.
\<close>

theorem validateAndCleanUrl_canonical:
  assumes "CHR ''?'' \<notin> set b"
    and "set s1 \<subseteq> {CHR ''/''}" and "q1 = [] \<or> hd q1 = CHR ''?''"
    and "set s2 \<subseteq> {CHR ''/''}" and "q2 = [] \<or> hd q2 = CHR ''?''"
  shows "validateAndCleanUrl (b @ s1 @ q1) = validateAndCleanUrl (b @ s2 @ q2)
       \<and> (\<forall>c. validateAndCleanUrl (b @ s1 @ q1) = Inr c \<longrightarrow> c = strip_trailing_slashes b)"
proof -
  have c1: "strip_trailing_slashes (takeWhile (\<lambda>c. c \<noteq> CHR ''?'') (b @ s1 @ q1)) = strip_trailing_slashes b"
    using assms(1,2,3) by (rule clean_url_canonical)
  have c2: "strip_trailing_slashes (takeWhile (\<lambda>c. c \<noteq> CHR ''?'') (b @ s2 @ q2)) = strip_trailing_slashes b"
    using assms(1,4,5) by (rule clean_url_canonical)
  have "validateAndCleanUrl (b @ s1 @ q1) = validateAndCleanUrl (b @ s2 @ q2)"
    unfolding validateAndCleanUrl_def c1 c2 ..
  moreover have "\<forall>c. validateAndCleanUrl (b @ s1 @ q1) = Inr c \<longrightarrow> c = strip_trailing_slashes b"
    using validateAndCleanUrl_Inr [of "b @ s1 @ q1"] c1 by simp
  ultimately show ?thesis ..
qed


lemma validateAndCleanUrl_example: "validateAndCleanUrl ''https://www.behance.net/gallery/123456/Project-Name''
     = Inr ''https://www.behance.net/gallery/123456/Project-Name''"
  by code_simp

theorem validateAndCleanUrl_canonical_witness:
  "validateAndCleanUrl ''https://www.behance.net/gallery/123456/Project-Name///?tracking=1''
     = Inr ''https://www.behance.net/gallery/123456/Project-Name''
   \<and> validateAndCleanUrl ''https://www.behance.net/gallery/123456/Project-Name''
     = Inr ''https://www.behance.net/gallery/123456/Project-Name''"
  using validateAndCleanUrl_canonical [of "''https://www.behance.net/gallery/123456/Project-Name''"
      "''///''" "''?tracking=1''" "[]" "[]"] validateAndCleanUrl_example
  by simp

section \<open>The download run of the page\<close>

lemma handler_url_required:
  assumes "req_method req = ''POST''" and "req_body req = Some b" and "req_url b = None"
  shows "case snd (handler ex now st req) of Inl err \<Rightarrow> True | Inr r \<Rightarrow> status r = 400"
  using assms
  by (simp add: handler_def post_try_def respond_def split: sum.splits prod.splits)

lemma recordDownload_page_rejected: "\<exists>w' r. recordDownload_page E w = (w', Inl r)"
proof -
  define req where "req = \<lparr>req_method = ''POST'', req_body = Some \<lparr>req_url = None, req_action = Some ''download''\<rparr>,
           forwarded = client_forwarded E, remoteAddress = client_address E\<rparr>"
  have "case snd (handler (extractImages E) (clock w) (store w) req) of
          Inl err \<Rightarrow> True | Inr r \<Rightarrow> status r = 400"
    by (rule handler_url_required [where b = "\<lparr>req_url = None, req_action = Some ''download''\<rparr>"])
      (simp_all add: req_def)
  then show ?thesis
    unfolding recordDownload_page_def axios_post_def req_def [symmetric]
    by (cases "handler (extractImages E) (clock w) (store w) req")
      (auto simp: Let_def split: sum.splits)
qed

lemma downloadWithRetry_never_succeeds: "snd (downloadWithRetry E im attempt wh) = None"
proof (induction E im attempt wh rule: downloadWithRetry.induct)
  case (1 E im attempt w h)
  obtain w1 g where g: "axios_get E w (url im) = (w1, g)"
    by (cases "axios_get E w (url im)")
  show ?case
  proof (cases g)
    case GetError
    have "attempt < MAX_RETRIES \<Longrightarrow>
            snd (downloadWithRetry E im (attempt + 1) (wait (RETRY_DELAY * attempt) w1, h)) = None"
      using 1(1) [of w1 g] g GetError by simp
    with g GetError show ?thesis
      by (simp del: downloadWithRetry.simps add: downloadWithRetry.simps [of E im attempt w h])
  next
    case (GetOk d ct)
    obtain w2 r where r: "recordDownload_page E w1 = (w2, Inl r)"
      using recordDownload_page_rejected by blast
    have "attempt < MAX_RETRIES \<Longrightarrow>
            snd (downloadWithRetry E im (attempt + 1) (wait (RETRY_DELAY * attempt) w2, h)) = None"
      using 1(2) [of w1 g d ct w2 "Inl r" r] g GetOk r by simp
    with g GetOk r show ?thesis
      by (simp del: downloadWithRetry.simps add: downloadWithRetry.simps [of E im attempt w h])
  qed
qed

text \<open>
  Claim C1, as the code has it. The page checks the quota once, before the run, against the
  snapshot it holds: when the selection is not empty and the snapshot has fewer remaining
  units than descriptors selected, the run is not started. The world is left as it was (no
  image is requested, no unit is recorded, every selected descriptor stays not attempted), and
  the page raises the rate-limit modal.
\<close>

theorem handleDownload_quota_gate:
  assumes "selectedImages \<noteq> []"
    and "rateLimitInfo h = Some i"
    and "remaining i < int (length selectedImages)"
  shows "handleDownload E selectedImages (w, h) = (w, h\<lparr>showRateLimitModal := True\<rparr>)"
  using assms by (simp add: handleDownload_def)

theorem handleDownload_quota_gate_witness:
  "handleDownload (scenario_env (\<lambda>k u. GetOk ''bytes'' (Some ''image/jpeg''))) five_images
     (world_at_0 Map.empty,
      idle_home (Some \<lparr>used = 17, limit = 20, remaining = 3, info_resetTime = 3600000\<rparr>) Zip)
   = (world_at_0 Map.empty,
      (idle_home (Some \<lparr>used = 17, limit = 20, remaining = 3, info_resetTime = 3600000\<rparr>) Zip)
        \<lparr>showRateLimitModal := True\<rparr>)"
  using handleDownload_quota_gate [of five_images
      "idle_home (Some \<lparr>used = 17, limit = 20, remaining = 3, info_resetTime = 3600000\<rparr>) Zip"
      "\<lparr>used = 17, limit = 20, remaining = 3, info_resetTime = 3600000\<rparr>"
      "scenario_env (\<lambda>k u. GetOk ''bytes'' (Some ''image/jpeg''))" "world_at_0 Map.empty"]
  by (simp add: five_images_def idle_home_def)

text \<open>
  Claim C1 as it is stated fails at its own scenario, five descriptors selected with three
  units remaining: the claim has the first three descriptors fetched and the last two
  returned as not attempted, the code fetches none of the five.
\<close>

theorem handleDownload_partial_run_counterexample:
  "fetched (trace (fst (handleDownload (scenario_env (\<lambda>k u. GetOk ''bytes'' (Some ''image/jpeg'')))
       five_images
       (world_at_0 Map.empty,
        idle_home (Some \<lparr>used = 17, limit = 20, remaining = 3, info_resetTime = 3600000\<rparr>) Zip)))) = []
   \<and> fetched (trace (fst (handleDownload (scenario_env (\<lambda>k u. GetOk ''bytes'' (Some ''image/jpeg'')))
       five_images
       (world_at_0 Map.empty,
        idle_home (Some \<lparr>used = 17, limit = 20, remaining = 3, info_resetTime = 3600000\<rparr>) Zip))))
      \<noteq> map url (take 3 five_images)
   \<and> showRateLimitModal (snd (handleDownload (scenario_env (\<lambda>k u. GetOk ''bytes'' (Some ''image/jpeg'')))
       five_images
       (world_at_0 Map.empty,
        idle_home (Some \<lparr>used = 17, limit = 20, remaining = 3, info_resetTime = 3600000\<rparr>) Zip)))"
  by code_simp

text \<open>
  Claim C5 at its own scenario: the image request fails twice and succeeds the third time.
  The page then posts its quota record with no \<^verbatim>\<open>url\<close> member; the handler answers 400, axios
  throws, and the third attempt ends in the \<^verbatim>\<open>catch\<close> block like the first two. The descriptor
  is reported as failed (\<open>None\<close>), and no unit is recorded for the client.
\<close>

theorem downloadWithRetry_third_attempt:
  "snd (downloadWithRetry
          (scenario_env (\<lambda>k u. if k < 2 then GetError else GetOk ''bytes'' (Some ''image/png'')))
          \<lparr>url = ''https://mir-s3-cdn-cf.behance.net/project_modules/2000/a.png'', filename = ''title_1.png''\<rparr>
          1
          (world_at_0 [''10.0.0.1'' \<mapsto> \<lparr>downloads = [], resetTime = 3600000\<rparr>], idle_home None Zip)) = None
   \<and> trace (fst (fst (downloadWithRetry
          (scenario_env (\<lambda>k u. if k < 2 then GetError else GetOk ''bytes'' (Some ''image/png'')))
          \<lparr>url = ''https://mir-s3-cdn-cf.behance.net/project_modules/2000/a.png'', filename = ''title_1.png''\<rparr>
          1
          (world_at_0 [''10.0.0.1'' \<mapsto> \<lparr>downloads = [], resetTime = 3600000\<rparr>], idle_home None Zip))))
     = [Get ''https://mir-s3-cdn-cf.behance.net/project_modules/2000/a.png'', Wait 1000,
        Get ''https://mir-s3-cdn-cf.behance.net/project_modules/2000/a.png'', Wait 2000,
        Get ''https://mir-s3-cdn-cf.behance.net/project_modules/2000/a.png'',
        Post \<lparr>req_url = None, req_action = Some ''download''\<rparr> 400]
   \<and> recorded (store (fst (fst (downloadWithRetry
          (scenario_env (\<lambda>k u. if k < 2 then GetError else GetOk ''bytes'' (Some ''image/png'')))
          \<lparr>url = ''https://mir-s3-cdn-cf.behance.net/project_modules/2000/a.png'', filename = ''title_1.png''\<rparr>
          1
          (world_at_0 [''10.0.0.1'' \<mapsto> \<lparr>downloads = [], resetTime = 3600000\<rparr>], idle_home None Zip)))))
       ''10.0.0.1'' = 0"
  by code_simp

section \<open>File names and image addresses\<close>

lemma to_lower_not_upper: "\<not> is_upper (to_lower c)"
  by (simp add: to_lower_def is_upper_def)

lemma collapse_underscores_set: "set (collapse_underscores s) \<subseteq> set s"
  by (induction s rule: collapse_underscores.induct) auto

lemma collapse_underscores_hd:
  "collapse_underscores s \<noteq> [] \<Longrightarrow> hd (collapse_underscores s) = hd s"
  by (induction s rule: collapse_underscores.induct) (auto split: if_splits)

lemma collapse_underscores_empty: "collapse_underscores s = [] \<longleftrightarrow> s = []"
  by (induction s rule: collapse_underscores.induct) auto

lemma collapse_underscores_no_run:
  "\<not> sublist ''__'' (collapse_underscores s)"
proof (induction s rule: collapse_underscores.induct)
  case (1 a b cs)
  have "collapse_underscores (b # cs) \<noteq> []"
    by (simp add: collapse_underscores_empty)
  then obtain x xs where x: "collapse_underscores (b # cs) = x # xs"
    by (cases "collapse_underscores (b # cs)") auto
  then have "x = b"
    using collapse_underscores_hd [of "b # cs"] by simp
  with 1 x show ?case
    by (auto simp: sublist_Cons_right)
next
  case "2_1"
  then show ?case by simp
next
  case "2_2"
  then show ?case by (simp add: sublist_Cons_right)
qed


lemma trim_underscore_sublist: "sublist (trim_underscore s) s"
proof -
  let ?s1 = "case s of [] \<Rightarrow> [] | c # cs \<Rightarrow> if c = CHR ''_'' then cs else c # cs"
  have a: "sublist ?s1 s"
    by (cases s) (auto simp: sublist_Cons_right)
  have "sublist (butlast ?s1) ?s1"
    by simp
  with a have "sublist (butlast ?s1) s"
    using sublist_order.order_trans by blast
  with a show ?thesis
    by (simp add: trim_underscore_def Let_def)
qed

lemma trim_underscore_hd:
  assumes "\<not> sublist ''__'' s" and "trim_underscore s \<noteq> []"
  shows "hd (trim_underscore s) \<noteq> CHR ''_''"
proof -
  let ?s1 = "case s of [] \<Rightarrow> [] | c # cs \<Rightarrow> if c = CHR ''_'' then cs else c # cs"
  have t: "trim_underscore s = (if ?s1 \<noteq> [] \<and> last ?s1 = CHR ''_'' then butlast ?s1 else ?s1)"
    by (simp add: trim_underscore_def Let_def)
  have s1: "?s1 = [] \<or> hd ?s1 \<noteq> CHR ''_''"
  proof (cases s)
    case Nil
    then show ?thesis by simp
  next
    case (Cons c cs)
    show ?thesis
    proof (cases "c = CHR ''_''")
      case False
      with Cons show ?thesis by simp
    next
      case True
      with Cons assms(1) have "cs = [] \<or> hd cs \<noteq> CHR ''_''"
        by (cases cs) (auto simp: sublist_Cons_right)
      with True Cons show ?thesis by simp
    qed
  qed
  have "hd (butlast ?s1) = hd ?s1" if "butlast ?s1 \<noteq> []"
    using that by (cases ?s1) (auto split: if_splits)
  with t s1 assms(2) show ?thesis
    by (auto split: if_splits)
qed

lemma sanitizeFilename_shape:
  "sanitizeFilename name \<noteq> []
   \<and> length (sanitizeFilename name) \<le> 50
   \<and> (\<forall>c\<in>set (sanitizeFilename name). is_lower c \<or> is_digit c \<or> c = CHR ''_'')
   \<and> hd (sanitizeFilename name) \<noteq> CHR ''_''
   \<and> \<not> sublist ''__'' (sanitizeFilename name)"
proof -
  define m where "m = map (\<lambda>c. if alnum_ci c then c else CHR ''_'') (toLowerCase name)"
  define t where "t = trim_underscore (collapse_underscores m)"
  have def: "sanitizeFilename name = (if take 50 t = [] then ''image'' else take 50 t)"
    by (simp add: sanitizeFilename_def m_def t_def Let_def)
  have chars_m: "\<forall>c\<in>set m. is_lower c \<or> is_digit c \<or> c = CHR ''_''"
    using to_lower_not_upper by (auto simp: m_def toLowerCase_def alnum_ci_def)
  have sub_t: "sublist t (collapse_underscores m)"
    unfolding t_def by (rule trim_underscore_sublist)
  have sub_k: "sublist (take 50 t) (collapse_underscores m)"
    using sub_t sublist_take sublist_order.order_trans by blast
  have "set (take 50 t) \<subseteq> set m"
    using set_mono_sublist [OF sub_k] collapse_underscores_set by blast
  with chars_m have chars: "\<forall>c\<in>set (take 50 t). is_lower c \<or> is_digit c \<or> c = CHR ''_''"
    by blast
  have norun: "\<not> sublist ''__'' (take 50 t)"
    using collapse_underscores_no_run [of m] sub_k sublist_order.order_trans by blast
  have hd: "hd (take 50 t) \<noteq> CHR ''_''" if "take 50 t \<noteq> []"
  proof -
    from that have "t \<noteq> []" by auto
    then have "hd t \<noteq> CHR ''_''"
      unfolding t_def using trim_underscore_hd collapse_underscores_no_run by blast
    with \<open>t \<noteq> []\<close> show ?thesis by (cases t) auto
  qed
  show ?thesis
  proof (cases "take 50 t = []")
    case True
    then have "sanitizeFilename name = ''image''"
      by (simp add: def)
    then show ?thesis
      by (simp add: is_lower_def sublist_Cons_right)
  next
    case False
    then have "sanitizeFilename name = take 50 t"
      by (simp add: def)
    with False chars norun hd show ?thesis
      by simp
  qed
qed

text \<open>
  Claim C7 at a title of 49 letters, a space and a letter: the name is trimmed before it is
  cut to 50 characters, and the cut leaves the separator at the end.
\<close>

theorem sanitizeFilename_trailing_separator:
  "sanitizeFilename ''aaaaaaaaaaaaaaaaaaaaaaaaaaaaaaaaaaaaaaaaaaaaaaaaa b''
     = ''aaaaaaaaaaaaaaaaaaaaaaaaaaaaaaaaaaaaaaaaaaaaaaaaa_''
   \<and> last (sanitizeFilename ''aaaaaaaaaaaaaaaaaaaaaaaaaaaaaaaaaaaaaaaaaaaaaaaaa b'') = CHR ''_''"
  by code_simp

text \<open>
  Claim C8 at an address with the \<^verbatim>\<open>http\<close> scheme: only an address that starts with two
  slashes is given the \<^verbatim>\<open>https\<close> scheme, this one keeps its own.
\<close>

theorem getHighestQualityUrl_keeps_http:
  "getHighestQualityUrl ''http://mir-s3-cdn-cf.behance.net/project_modules/1400/a.jpg''
     = ''http://mir-s3-cdn-cf.behance.net/project_modules/2000/a.jpg''
   \<and> \<not> prefix ''https'' (getHighestQualityUrl ''http://mir-s3-cdn-cf.behance.net/project_modules/1400/a.jpg'')"
  by code_simp

lemma replace_first_nonempty: "rep \<noteq> [] \<Longrightarrow> s \<noteq> [] \<Longrightarrow> replace_first m rep s \<noteq> []"
  by (cases s) (auto split: option.splits)

lemma replace_all_nonempty: "rep \<noteq> [] \<Longrightarrow> s \<noteq> [] \<Longrightarrow> replace_all m rep s \<noteq> []"
  by (cases s) (auto split: option.splits)

lemma replace_at_start_nonempty: "rep \<noteq> [] \<Longrightarrow> s \<noteq> [] \<Longrightarrow> replace_at_start m rep s \<noteq> []"
  by (auto simp: replace_at_start_def split: option.splits)

lemma getHighestQualityUrl_empty_iff: "getHighestQualityUrl u = [] \<longleftrightarrow> u = []"
proof
  assume "u = []"
  then show "getHighestQualityUrl u = []"
    by (simp add: getHighestQualityUrl_def)
next
  assume e: "getHighestQualityUrl u = []"
  show "u = []"
  proof (rule ccontr)
    assume "u \<noteq> []"
    then have "getHighestQualityUrl u \<noteq> []"
      unfolding getHighestQualityUrl_def Let_def
      by (simp add: replace_first_nonempty replace_all_nonempty replace_at_start_nonempty)
    with e show False by simp
  qed
qed

lemma process_urls_append:
  "process_urls t (xs @ ys) s = process_urls t ys (process_urls t xs s)"
proof (induction xs arbitrary: s)
  case Nil
  then show ?case by (cases s) simp
next
  case (Cons x xs)
  then show ?case by (cases s) (simp add: Let_def)
qed

lemma process_urls_step:
  assumes "process_urls t xs s0 = (images, seen)"
  shows "process_urls t (xs @ [x]) s0 =
           (if getHighestQualityUrl x \<noteq> [] \<and> getHighestQualityUrl x \<notin> seen
            then (images @ [\<lparr>url = getHighestQualityUrl x,
                              filename = sanitizeFilename t @ ''_'' @ string_of_nat (length images + 1)
                                @ getExtensionFromUrl (getHighestQualityUrl x)\<rparr>],
                  insert (getHighestQualityUrl x) seen)
            else (images, seen))"
  using assms by (simp add: process_urls_append Let_def)

lemma process_urls_invariant:
  assumes "\<forall>u\<in>set raw. u \<noteq> []"
  shows "snd (process_urls t raw ([], {})) = set (map getHighestQualityUrl raw)
       \<and> map url (fst (process_urls t raw ([], {}))) = rev (remdups (rev (map getHighestQualityUrl raw)))
       \<and> (\<forall>i<length (fst (process_urls t raw ([], {}))).
            filename (fst (process_urls t raw ([], {})) ! i) =
              sanitizeFilename t @ ''_'' @ string_of_nat (i + 1)
                @ getExtensionFromUrl (url (fst (process_urls t raw ([], {})) ! i)))"
  using assms
proof (induction raw rule: rev_induct)
  case Nil
  then show ?case by simp
next
  case (snoc x xs)
  obtain images seen where st: "process_urls t xs ([], {}) = (images, seen)"
    by (cases "process_urls t xs ([], {})")
  from snoc have ih: "seen = set (map getHighestQualityUrl xs)"
    "map url images = rev (remdups (rev (map getHighestQualityUrl xs)))"
    "\<forall>i<length images. filename (images ! i) =
        sanitizeFilename t @ ''_'' @ string_of_nat (i + 1) @ getExtensionFromUrl (url (images ! i))"
    using st by auto
  have ne: "getHighestQualityUrl x \<noteq> []"
    using snoc.prems by (simp add: getHighestQualityUrl_empty_iff)
  show ?case
  proof (cases "getHighestQualityUrl x \<in> seen")
    case True
    then have "process_urls t (xs @ [x]) ([], {}) = (images, seen)"
      using process_urls_step [OF st] by simp
    with True ih show ?thesis
      by auto
  next
    case False
    then have "process_urls t (xs @ [x]) ([], {}) =
        (images @ [\<lparr>url = getHighestQualityUrl x,
                      filename = sanitizeFilename t @ ''_'' @ string_of_nat (length images + 1)
                        @ getExtensionFromUrl (getHighestQualityUrl x)\<rparr>],
         insert (getHighestQualityUrl x) seen)"
      using process_urls_step [OF st] ne by simp
    with False ih show ?thesis
      by (auto simp: nth_append less_Suc_eq)
  qed
qed

lemma scan_images_nonempty: "\<forall>u\<in>set (scan_images es). u \<noteq> []"
  by (simp add: scan_images_def)

text \<open>
  Claim C4. For raw references that are not empty (the scan keeps no empty one), with \<open>N\<close>
  their number and \<open>D = N - card (set canon)\<close> the number of duplicates among their canonical
  addresses \<open>canon\<close>: the loop yields the canonical addresses in the order they are first seen,
  each once, so \<open>N - D\<close> descriptors, and the descriptor at position \<open>i\<close> (from 0) has the file
  name made of the sanitized title, an underscore, the number \<open>i + 1\<close> and the extension read
  off its address.
\<close>

theorem process_urls_descriptors:
  assumes "\<forall>u\<in>set raw. u \<noteq> []"
  shows "map url (fst (process_urls t raw ([], {}))) = rev (remdups (rev (map getHighestQualityUrl raw)))
       \<and> distinct (map url (fst (process_urls t raw ([], {}))))
       \<and> length (fst (process_urls t raw ([], {}))) = card (set (map getHighestQualityUrl raw))
       \<and> length (fst (process_urls t raw ([], {})))
            = length raw - (length raw - card (set (map getHighestQualityUrl raw)))
       \<and> (\<forall>i<length (fst (process_urls t raw ([], {}))).
            filename (fst (process_urls t raw ([], {})) ! i) =
              sanitizeFilename t @ ''_'' @ string_of_nat (i + 1)
                @ getExtensionFromUrl (url (fst (process_urls t raw ([], {})) ! i)))"
proof -
  let ?images = "fst (process_urls t raw ([], {}))"
  let ?canon = "map getHighestQualityUrl raw"
  from process_urls_invariant [OF assms, of t]
  have u: "map url ?images = rev (remdups (rev ?canon))"
    and f: "\<forall>i<length ?images. filename (?images ! i) =
              sanitizeFilename t @ ''_'' @ string_of_nat (i + 1) @ getExtensionFromUrl (url (?images ! i))"
    by blast+
  have d: "distinct (map url ?images)"
    by (simp add: u)
  have "length (map url ?images) = length (remdups (rev ?canon))"
    by (simp add: u)
  then have l: "length ?images = card (set ?canon)"
    by (simp add: length_remdups_card_conv)
  have "card (set ?canon) \<le> length raw"
    using card_length [of ?canon] by simp
  with l have l2: "length ?images = length raw - (length raw - card (set ?canon))"
    by simp
  from u d l l2 f show ?thesis
    by blast
qed

lemma process_urls_example:
  "fst (process_urls ''My Title''
          [''https://mir-s3-cdn-cf.behance.net/project_modules/200/a.png'',
           ''https://mir-s3-cdn-cf.behance.net/project_modules/400/a.png'',
           ''//mir-s3-cdn-cf.behance.net/project_modules/b_200.webp''] ([], {}))
     = [\<lparr>url = ''https://mir-s3-cdn-cf.behance.net/project_modules/2000/a.png'', filename = ''my_title_1.png''\<rparr>,
        \<lparr>url = ''https://mir-s3-cdn-cf.behance.net/project_modules/b_2000.webp'', filename = ''my_title_2.webp''\<rparr>]"
  by code_simp

theorem process_urls_descriptors_witness:
  "map url (fst (process_urls ''My Title''
          [''https://mir-s3-cdn-cf.behance.net/project_modules/200/a.png'',
           ''https://mir-s3-cdn-cf.behance.net/project_modules/400/a.png'',
           ''//mir-s3-cdn-cf.behance.net/project_modules/b_200.webp''] ([], {})))
     = [''https://mir-s3-cdn-cf.behance.net/project_modules/2000/a.png'',
        ''https://mir-s3-cdn-cf.behance.net/project_modules/b_2000.webp'']
   \<and> length (fst (process_urls ''My Title''
          [''https://mir-s3-cdn-cf.behance.net/project_modules/200/a.png'',
           ''https://mir-s3-cdn-cf.behance.net/project_modules/400/a.png'',
           ''//mir-s3-cdn-cf.behance.net/project_modules/b_200.webp''] ([], {}))) = 3 - 1
   \<and> card (set (map getHighestQualityUrl
          [''https://mir-s3-cdn-cf.behance.net/project_modules/200/a.png'',
           ''https://mir-s3-cdn-cf.behance.net/project_modules/400/a.png'',
           ''//mir-s3-cdn-cf.behance.net/project_modules/b_200.webp''])) = 2"
  using process_urls_descriptors [of
          "[''https://mir-s3-cdn-cf.behance.net/project_modules/200/a.png'',
           ''https://mir-s3-cdn-cf.behance.net/project_modules/400/a.png'',
           ''//mir-s3-cdn-cf.behance.net/project_modules/b_200.webp'']" "''My Title''"]
    process_urls_example
  by simp

section \<open>The markers of an image address\<close>

lemma str_includes_sublist: "str_includes s sub \<longleftrightarrow> sublist sub s"
  by (induction s) (auto simp: sublist_Cons_right)

lemma getHighestQualityUrl_steps:
  "u \<noteq> [] \<Longrightarrow>
   getHighestQualityUrl u =
     foldl (\<lambda>s st. apply_step st s) (replace_at_start (lit ''//'') ''https://'' u) (path_steps @ suffix_steps)"
  by (simp add: getHighestQualityUrl_def Let_def path_steps_def suffix_steps_def sizes_def
      apply_step_def suffix_pattern_def)

lemma replace_first_cases:
  "replace_first m rep s = s \<or> (\<exists>a b. replace_first m rep s = a @ rep @ b)"
proof (induction s)
  case Nil
  show ?case
  proof (cases "m []")
    case None
    then show ?thesis by simp
  next
    case (Some n)
    then have "replace_first m rep [] = [] @ rep @ []" by simp
    then show ?thesis by blast
  qed
next
  case (Cons c cs)
  show ?case
  proof (cases "m (c # cs)")
    case None
    from Cons show ?thesis
    proof
      assume "replace_first m rep cs = cs"
      with None show ?thesis by simp
    next
      assume "\<exists>a b. replace_first m rep cs = a @ rep @ b"
      then obtain a b where "replace_first m rep cs = a @ rep @ b" by blast
      with None have "replace_first m rep (c # cs) = (c # a) @ rep @ b" by simp
      then show ?thesis by blast
    qed
  next
    case (Some n)
    then have "replace_first m rep (c # cs) = [] @ rep @ drop n (c # cs)" by simp
    then show ?thesis by blast
  qed
qed

lemma replace_first_match:
  "regex_test m s \<Longrightarrow> \<exists>a b. replace_first m rep s = a @ rep @ b"
proof (induction s)
  case Nil
  then obtain n where "m [] = Some n" by auto
  then have "replace_first m rep [] = [] @ rep @ []" by simp
  then show ?case by blast
next
  case (Cons c cs)
  show ?case
  proof (cases "m (c # cs)")
    case None
    with Cons.prems have "regex_test m cs" by simp
    with Cons.IH obtain a b where "replace_first m rep cs = a @ rep @ b" by blast
    with None have "replace_first m rep (c # cs) = (c # a) @ rep @ b" by simp
    then show ?thesis by blast
  next
    case (Some n)
    then have "replace_first m rep (c # cs) = [] @ rep @ drop n (c # cs)" by simp
    then show ?thesis by blast
  qed
qed

lemma replace_all_cases:
  "replace_all m rep s = s \<or> (\<exists>a b. replace_all m rep s = a @ rep @ b)"
proof (induction m rep s rule: replace_all.induct)
  case (1 m rep)
  show ?case
  proof (cases "m []")
    case None
    then show ?thesis by simp
  next
    case (Some n)
    then have "replace_all m rep [] = [] @ rep @ []" by simp
    then show ?thesis by blast
  qed
next
  case (2 m rep c cs)
  show ?case
  proof (cases "m (c # cs)")
    case None
    from 2(1) [OF None] show ?thesis
    proof (elim disjE exE)
      assume "replace_all m rep cs = cs"
      with None show ?thesis by simp
    next
      fix a b
      assume "replace_all m rep cs = a @ rep @ b"
      with None have "replace_all m rep (c # cs) = (c # a) @ rep @ b" by simp
      then show ?thesis by blast
    qed
  next
    case (Some n)
    then have "\<exists>b. replace_all m rep (c # cs) = [] @ rep @ b" by simp
    then show ?thesis by blast
  qed
qed

lemma replace_all_match:
  "regex_test m s \<Longrightarrow> \<exists>a b. replace_all m rep s = a @ rep @ b"
proof (induction s)
  case Nil
  then obtain n where "m [] = Some n" by auto
  then have "replace_all m rep [] = [] @ rep @ []" by simp
  then show ?case by blast
next
  case (Cons c cs)
  show ?case
  proof (cases "m (c # cs)")
    case None
    with Cons.prems have "regex_test m cs" by simp
    with Cons.IH obtain a b where "replace_all m rep cs = a @ rep @ b" by blast
    with None have "replace_all m rep (c # cs) = (c # a) @ rep @ b" by simp
    then show ?thesis by blast
  next
    case (Some n)
    then have "\<exists>b. replace_all m rep (c # cs) = [] @ rep @ b" by simp
    then show ?thesis by blast
  qed
qed

lemma token_in_context:
  "max_resolution_token rep \<Longrightarrow> max_resolution_token (a @ rep @ b)"
  unfolding max_resolution_token_def str_includes_sublist
  by (meson sublist_appendI sublist_order.order_trans)

lemma apply_step_cases:
  assumes "max_resolution_token (snd (snd st))"
  shows "apply_step st s = s \<or> max_resolution_token (apply_step st s)"
proof -
  obtain g m rep where st: "st = (g, m, rep)" by (cases st)
  have "apply_step st s = s \<or> (\<exists>a b. apply_step st s = a @ rep @ b)"
    using replace_first_cases [of m rep s] replace_all_cases [of m rep s]
    by (simp add: st apply_step_def)
  with assms st show ?thesis
    by (auto simp: token_in_context)
qed

lemma apply_step_match:
  assumes "max_resolution_token (snd (snd st))" and "regex_test (fst (snd st)) s"
  shows "max_resolution_token (apply_step st s)"
proof -
  obtain g m rep where st: "st = (g, m, rep)" by (cases st)
  have "\<exists>a b. apply_step st s = a @ rep @ b"
    using replace_first_match [of m s rep] replace_all_match [of m s rep] assms(2)
    by (simp add: st apply_step_def)
  with assms st show ?thesis
    by (auto simp: token_in_context)
qed

lemma steps_keep_token:
  assumes "\<forall>st\<in>set steps. max_resolution_token (snd (snd st))" and "max_resolution_token s"
  shows "max_resolution_token (foldl (\<lambda>s st. apply_step st s) s steps)"
  using assms
proof (induction steps arbitrary: s)
  case Nil
  then show ?case by simp
next
  case (Cons st steps)
  then have "max_resolution_token (apply_step st s)"
    using apply_step_cases [of st s] by auto
  with Cons show ?case by simp
qed

lemma steps_reach_token:
  assumes "\<forall>st\<in>set steps. max_resolution_token (snd (snd st))"
    and "st \<in> set steps" and "regex_test (fst (snd st)) s"
  shows "max_resolution_token (foldl (\<lambda>s st. apply_step st s) s steps)"
  using assms
proof (induction steps arbitrary: s)
  case Nil
  then show ?case by simp
next
  case (Cons st1 steps)
  have tok1: "max_resolution_token (snd (snd st1))" and toks: "\<forall>st\<in>set steps. max_resolution_token (snd (snd st))"
    using Cons.prems(1) by auto
  show ?case
  proof (cases "max_resolution_token (apply_step st1 s)")
    case True
    with toks show ?thesis
      by (simp add: steps_keep_token)
  next
    case False
    then have same: "apply_step st1 s = s"
      using apply_step_cases [OF tok1, of s] by blast
    have "st \<noteq> st1"
      using False apply_step_match [OF tok1, of s] Cons.prems(3) by auto
    with Cons.prems(2) have "st \<in> set steps" by simp
    with Cons.IH [OF toks this] Cons.prems(3) same show ?thesis
      by simp
  qed
qed

lemma regex_test_append: "regex_test m s \<Longrightarrow> regex_test m (pre @ s)"
  by (induction pre) auto

lemma no_marker_at_double_slash:
  assumes "st \<in> set (path_steps @ suffix_steps)"
  shows "fst (snd st) (CHR ''/'' # CHR ''/'' # r) = None"
  using assms
  by (auto simp: path_steps_def suffix_steps_def sizes_def suffix_pattern_def
      fs_segment_def size_segment_def alt_def lit_def)

lemma marker_after_scheme:
  assumes "st \<in> set (path_steps @ suffix_steps)" and "regex_test (fst (snd st)) u"
  shows "regex_test (fst (snd st)) (replace_at_start (lit ''//'') ''https://'' u)"
proof (cases "prefix ''//'' u")
  case False
  then show ?thesis
    using assms(2) by (simp add: replace_at_start_def lit_def)
next
  case True
  then obtain r where u: "u = CHR ''/'' # CHR ''/'' # r"
    by (auto simp: prefix_def)
  have "regex_test (fst (snd st)) (CHR ''/'' # r)"
    using assms(2) no_marker_at_double_slash [OF assms(1), of r] by (simp add: u)
  then have "regex_test (fst (snd st)) (''https:/'' @ CHR ''/'' # r)"
    by (rule regex_test_append)
  then show ?thesis
    by (simp add: u replace_at_start_def lit_def)
qed

lemma steps_have_token:
  "\<forall>st\<in>set (path_steps @ suffix_steps). max_resolution_token (snd (snd st))"
  by (simp add: path_steps_def suffix_steps_def sizes_def max_resolution_token_def)

lemma regex_test_nonempty:
  assumes "st \<in> set (path_steps @ suffix_steps)" and "regex_test (fst (snd st)) u"
  shows "u \<noteq> []"
  using assms
  by (auto simp: path_steps_def suffix_steps_def sizes_def suffix_pattern_def
      fs_segment_def size_segment_def alt_def lit_def)

lemma marker_gives_token:
  assumes "low_res_marker u"
  shows "max_resolution_token (getHighestQualityUrl u)"
proof -
  from assms obtain st where st: "st \<in> set (path_steps @ suffix_steps)" "regex_test (fst (snd st)) u"
    by (auto simp: low_res_marker_def list_ex_iff)
  then have "u \<noteq> []"
    by (rule regex_test_nonempty)
  moreover have "regex_test (fst (snd st)) (replace_at_start (lit ''//'') ''https://'' u)"
    using st by (rule marker_after_scheme)
  ultimately show ?thesis
    using steps_reach_token [OF steps_have_token st(1)]
    by (simp add: getHighestQualityUrl_steps)
qed

lemma replace_all_prefix_back:
  assumes "\<And>s n. m s = Some n \<Longrightarrow> \<exists>t. s = d # t"
    and "d \<notin> set b"
    and "prefix b (replace_all m (d # rb) s)"
  shows "prefix b s"
  using assms(2,3)
proof (induction s arbitrary: b)
  case Nil
  have "m [] = None"
    using assms(1) [of "[]"] by (cases "m []") auto
  with Nil show ?case by simp
next
  case (Cons c cs)
  show ?case
  proof (cases "m (c # cs)")
    case None
    show ?thesis
    proof (cases b)
      case Nil
      then show ?thesis by simp
    next
      case (Cons x b')
      with Cons.prems None have "x = c" "prefix b' (replace_all m (d # rb) cs)" "d \<notin> set b'"
        by auto
      with Cons.IH [of b'] Cons show ?thesis by simp
    qed
  next
    case (Some n)
    with Cons.prems(2) have "prefix b (d # rb @ (if n = 0 then c # replace_all m (d # rb) cs
                                       else replace_all m (d # rb) (drop (n - 1) cs)))"
      by (simp split: if_splits)
    with Cons.prems(1) have "b = []"
      by (cases b) auto
    then show ?thesis by simp
  qed
qed

lemma sublist_skip:
  assumes "d \<notin> set u" and "sublist (d # q) (u @ t)"
  shows "sublist (d # q) t"
  using assms by (induction u) (auto simp: sublist_Cons_right)

lemma sublist_drop_back:
  assumes "sublist q (drop k cs)"
  shows "sublist q (c # cs)"
proof -
  have "sublist (drop k cs) (c # cs)"
    by (metis sublist_Cons_right sublist_drop)
  with assms show ?thesis
    using sublist_order.order_trans by blast
qed

lemma replace_all_removes:
  assumes m1: "\<And>s n. m s = Some n \<Longrightarrow> prefix (d # pb) s \<and> n = Suc (length pb)"
    and m2: "\<And>s. prefix (d # pb) s \<Longrightarrow> m s \<noteq> None"
    and qb: "d \<notin> set qb" and rb: "d \<notin> set rb"
    and differ: "\<And>t. \<not> prefix qb (rb @ t)"
    and absent: "qb \<noteq> pb \<Longrightarrow> \<not> sublist (d # qb) s"
  shows "\<not> sublist (d # qb) (replace_all m (d # rb) s)"
  using absent
proof (induction "length s" arbitrary: s rule: less_induct)
  case less
  have starts: "\<And>s n. m s = Some n \<Longrightarrow> \<exists>t. s = d # t"
    using m1 by (auto simp: prefix_def)
  show ?case
  proof (cases s)
    case Nil
    have "m [] = None"
      using starts [of "[]"] by (cases "m []") auto
    with Nil show ?thesis by simp
  next
    case (Cons c cs)
    show ?thesis
    proof (cases "m (c # cs)")
      case None
      have tail: "\<not> sublist (d # qb) (replace_all m (d # rb) cs)"
      proof (rule less.hyps)
        show "length cs < length s" by (simp add: Cons)
        show "\<not> sublist (d # qb) cs" if "qb \<noteq> pb"
          using less.prems [OF that] by (simp add: Cons sublist_Cons_right)
      qed
      have head: "\<not> prefix (d # qb) (c # replace_all m (d # rb) cs)"
      proof
        assume p: "prefix (d # qb) (c # replace_all m (d # rb) cs)"
        then have "c = d" and "prefix qb (replace_all m (d # rb) cs)" by auto
        then have "prefix qb cs"
          using replace_all_prefix_back [of m d qb rb cs] starts qb by blast
        with \<open>c = d\<close> have here: "prefix (d # qb) (c # cs)" by simp
        show False
        proof (cases "qb = pb")
          case True
          with here m2 [of "c # cs"] None show False by simp
        next
          case False
          with less.prems here show False
            by (simp add: Cons sublist_Cons_right)
        qed
      qed
      from None head tail show ?thesis
        by (simp add: Cons sublist_Cons_right)
    next
      case (Some n)
      then have n: "n = Suc (length pb)"
        using m1 by blast
      let ?t = "replace_all m (d # rb) (drop (n - 1) cs)"
      have tail: "\<not> sublist (d # qb) ?t"
      proof (rule less.hyps)
        show "length (drop (n - 1) cs) < length s" by (simp add: Cons)
        show "\<not> sublist (d # qb) (drop (n - 1) cs)" if "qb \<noteq> pb"
          using less.prems [OF that] sublist_drop_back [of "d # qb" "n - 1" cs c] by (auto simp: Cons)
      qed
      have "\<not> sublist (d # qb) (rb @ ?t)"
        using tail sublist_skip [OF rb] by blast
      moreover have "\<not> prefix (d # qb) (d # rb @ ?t)"
        using differ by simp
      ultimately have "\<not> sublist (d # qb) (d # rb @ ?t)"
        by (simp add: sublist_Cons_right)
      with Some n show ?thesis
        by (simp add: Cons)
    qed
  qed
qed


lemma suffix_sizes:
  assumes "q \<in> set sizes"
  shows "CHR ''_'' \<notin> set (q @ ''.'')" and "\<not> prefix (q @ ''.'') (''2000.'' @ t)"
  using assms by (auto simp: sizes_def)

lemma lit_match: "lit p s = Some n \<longleftrightarrow> prefix p s \<and> n = length p"
  by (auto simp: lit_def)

lemma suffix_step_removes:
  assumes "q \<in> set sizes"
    and "q \<noteq> n \<Longrightarrow> \<not> sublist (suffix_pattern q) s"
  shows "\<not> sublist (suffix_pattern q) (apply_step (True, lit (suffix_pattern n), ''_2000.'') s)"
proof -
  have "\<not> sublist (CHR ''_'' # (q @ ''.''))
          (replace_all (lit (CHR ''_'' # (n @ ''.''))) (CHR ''_'' # ''2000.'') s)"
  proof (rule replace_all_removes [where pb = "n @ ''.''"])
    show "prefix (CHR ''_'' # n @ ''.'') s' \<and> k = Suc (length (n @ ''.''))"
      if "lit (CHR ''_'' # n @ ''.'') s' = Some k" for s' k
      using that by (simp add: lit_match)
    show "lit (CHR ''_'' # n @ ''.'') s' \<noteq> None" if "prefix (CHR ''_'' # n @ ''.'') s'" for s'
      using that by (simp add: lit_def)
    show "CHR ''_'' \<notin> set (q @ ''.'')"
      using assms(1) by (rule suffix_sizes)
    show "CHR ''_'' \<notin> set ''2000.''"
      by simp
    show "\<not> prefix (q @ ''.'') (''2000.'' @ t)" for t
      using assms(1) by (rule suffix_sizes)
    show "\<not> sublist (CHR ''_'' # q @ ''.'') s" if "q @ ''.'' \<noteq> n @ ''.''"
      using that assms(2) by (auto simp: suffix_pattern_def)
  qed
  then show ?thesis
    by (simp add: apply_step_def suffix_pattern_def)
qed

lemma suffix_steps_remove:
  assumes "set ns \<subseteq> set sizes"
  shows "\<forall>q\<in>set ns. \<not> sublist (suffix_pattern q)
           (foldl (\<lambda>s st. apply_step st s) s (map (\<lambda>n. (True, lit (suffix_pattern n), ''_2000.'')) ns))"
  using assms
proof (induction ns rule: rev_induct)
  case Nil
  then show ?case by simp
next
  case (snoc n ns)
  let ?s = "foldl (\<lambda>s st. apply_step st s) s (map (\<lambda>n. (True, lit (suffix_pattern n), ''_2000.'')) ns)"
  from snoc have ih: "\<forall>q\<in>set ns. \<not> sublist (suffix_pattern q) ?s"
    by simp
  have "\<not> sublist (suffix_pattern q) (apply_step (True, lit (suffix_pattern n), ''_2000.'') ?s)"
    if "q \<in> set (ns @ [n])" for q
  proof (rule suffix_step_removes)
    show "q \<in> set sizes"
      using that snoc.prems by auto
    show "\<not> sublist (suffix_pattern q) ?s" if "q \<noteq> n"
      using that \<open>q \<in> set (ns @ [n])\<close> ih by auto
  qed
  then show ?case
    by simp
qed

lemma split_slash_nonempty: "split_slash s \<noteq> []"
  by (cases s) (auto split: list.splits)

lemma split_slash_Cons [simp]:
  "split_slash (c # cs) =
     (if c = CHR ''/'' then [] # split_slash cs
      else (c # hd (split_slash cs)) # tl (split_slash cs))"
  using split_slash_nonempty [of cs] by (cases "split_slash cs") auto

declare split_slash.simps(2) [simp del]

lemma split_slash_plain: "CHR ''/'' \<notin> set x \<Longrightarrow> split_slash (x @ t) = (x @ hd (split_slash t)) # tl (split_slash t)"
  by (induction x) (auto simp: split_slash_nonempty)

lemma split_slash_segment: "CHR ''/'' \<notin> set x \<Longrightarrow> split_slash (x @ CHR ''/'' # t) = x # split_slash t"
  by (simp add: split_slash_plain)

lemma split_slash_prefix:
  "split_slash cs = y # z # rest \<Longrightarrow> \<exists>r. cs = y @ CHR ''/'' # r \<and> split_slash r = z # rest \<and> CHR ''/'' \<notin> set y"
proof (induction cs arbitrary: y)
  case Nil
  then show ?case by simp
next
  case (Cons c cs)
  show ?case
  proof (cases "c = CHR ''/''")
    case True
    with Cons.prems show ?thesis by auto
  next
    case False
    with Cons.prems have "split_slash cs = tl y # z # rest" and y: "y = c # tl y"
      using split_slash_nonempty [of cs] by (cases "split_slash cs"; auto)+
    from Cons.IH [OF this(1)] obtain r where "cs = tl y @ CHR ''/'' # r" "split_slash r = z # rest" "CHR ''/'' \<notin> set (tl y)"
      by blast
    with y False show ?thesis
      by (metis append_Cons set_ConsD)
  qed
qed


lemma inner_upd_Cons:
  "inner_upd P v (y # zs) =
     (if zs = [] then [y] else if P y then v # zs else y # inner_upd P v zs)"
  by (simp add: inner_upd_def)

lemma size_segment_match:
  "size_segment n s \<noteq> None \<longleftrightarrow> prefix (''/'' @ n @ ''H/'') s \<or> prefix (''/'' @ n @ ''/'') s"
  by (auto simp: size_segment_def alt_def lit_def)

lemma size_segment_length:
  assumes "size_segment n s = Some k"
  shows "(prefix (''/'' @ n @ ''H/'') s \<and> k = length n + 3) \<or> (prefix (''/'' @ n @ ''/'') s \<and> k = length n + 2)"
  using assms by (auto simp: size_segment_def alt_def lit_def split: if_splits)

lemma split_after_size_step:
  assumes "CHR ''/'' \<notin> set n"
  shows "split_slash (replace_first (size_segment n) ''/2000/'' s) =
           hd (split_slash s) # inner_upd (size_hit n) ''2000'' (tl (split_slash s))"
proof (induction s)
  case Nil
  have "size_segment n [] = None"
    by (simp add: size_segment_def alt_def lit_def)
  then show ?case
    by (simp add: inner_upd_def)
next
  case (Cons c cs)
  show ?case
  proof (cases "size_segment n (c # cs)")
    case (Some k)
    then consider r where "c # cs = ''/'' @ n @ ''H/'' @ r" "k = length n + 3"
      | r where "c # cs = ''/'' @ n @ ''/'' @ r" "k = length n + 2"
      using size_segment_length [OF Some] by (auto simp: prefix_def)
    then show ?thesis
    proof cases
      case 1
      then have c: "c = CHR ''/''" and cs: "cs = (n @ ''H'') @ CHR ''/'' # r" by auto
      have "split_slash cs = (n @ ''H'') # split_slash r"
        unfolding cs using assms by (intro split_slash_segment) auto
      moreover have "replace_first (size_segment n) ''/2000/'' (c # cs) = ''/2000/'' @ r"
      proof -
        have "c # cs = (''/'' @ n @ ''H/'') @ r" and "k = length (''/'' @ n @ ''H/'')"
          using 1 by simp_all
        then have "drop k (c # cs) = r"
          by (metis append_eq_conv_conj)
        with Some show ?thesis by simp
      qed
      ultimately show ?thesis
        using c split_slash_nonempty [of r] by (simp add: inner_upd_Cons size_hit_def)
    next
      case 2
      then have c: "c = CHR ''/''" and cs: "cs = n @ CHR ''/'' # r" by auto
      have "split_slash cs = n # split_slash r"
        unfolding cs using assms by (intro split_slash_segment) auto
      moreover have "replace_first (size_segment n) ''/2000/'' (c # cs) = ''/2000/'' @ r"
      proof -
        have "c # cs = (''/'' @ n @ ''/'') @ r" and "k = length (''/'' @ n @ ''/'')"
          using 2 by simp_all
        then have "drop k (c # cs) = r"
          by (metis append_eq_conv_conj)
        with Some show ?thesis by simp
      qed
      ultimately show ?thesis
        using c split_slash_nonempty [of r] by (simp add: inner_upd_Cons size_hit_def)
    qed
  next
    case None
    then have step: "replace_first (size_segment n) ''/2000/'' (c # cs) = c # replace_first (size_segment n) ''/2000/'' cs"
      by simp
    show ?thesis
    proof (cases "c = CHR ''/''")
      case False
      with Cons.IH step show ?thesis by simp
    next
      case True
      obtain y zs where sp: "split_slash cs = y # zs"
        using split_slash_nonempty [of cs] by (cases "split_slash cs") auto
      have "\<not> size_hit n y" if "zs \<noteq> []"
      proof
        assume hit: "size_hit n y"
        from that obtain z rest where "zs = z # rest" by (cases zs) auto
        with sp obtain r where "cs = y @ CHR ''/'' # r"
          using split_slash_prefix by blast
        with True hit have "size_segment n (c # cs) \<noteq> None"
          unfolding size_segment_match by (auto simp: size_hit_def)
        with None show False by simp
      qed
      with Cons.IH step True sp show ?thesis
        by (auto simp: inner_upd_Cons inner_upd_def)
    qed
  qed
qed


lemma fs_inner_Cons:
  "fs_inner (y # zs) =
     (if length zs \<ge> 2 \<and> fs_hit y (hd zs) then ''original'' # tl zs else y # fs_inner zs)"
proof (cases zs)
  case Nil
  then show ?thesis by (simp add: fs_inner_def)
next
  case (Cons z ws)
  show ?thesis
  proof (cases ws)
    case Nil
    with Cons show ?thesis by (simp add: fs_inner_def)
  next
    case (Cons w rest)
    with \<open>zs = z # ws\<close> show ?thesis
      by (simp add: fs_inner_def fs_hit_def)
  qed
qed

lemma fs_segment_match:
  assumes "fs_segment s = Some k"
  shows "\<exists>pre r. s = ''/fs/'' @ pre @ CHR ''/'' # r \<and> CHR ''/'' \<notin> set pre
           \<and> list_all (\<lambda>c. \<not> line_terminator c) pre \<and> drop k s = r"
proof -
  from assms have p: "prefix ''/fs/'' s"
    by (auto simp: fs_segment_def split: if_splits)
  define t where "t = drop 4 s"
  define pre where "pre = takeWhile (\<lambda>c. c \<noteq> CHR ''/'') t"
  from p have s: "s = ''/fs/'' @ t"
    by (auto simp: t_def prefix_def)
  from assms p have l: "length pre < length t" and lt: "list_all (\<lambda>c. \<not> line_terminator c) pre"
    and k: "k = 4 + length pre + 1"
    by (auto simp: fs_segment_def Let_def t_def pre_def split: if_splits)
  have split: "t = pre @ dropWhile (\<lambda>c. c \<noteq> CHR ''/'') t"
    by (simp add: pre_def)
  have ne: "dropWhile (\<lambda>c. c \<noteq> CHR ''/'') t \<noteq> []"
  proof
    assume "dropWhile (\<lambda>c. c \<noteq> CHR ''/'') t = []"
    with split have "t = pre" by simp
    with l show False by simp
  qed
  then have "hd (dropWhile (\<lambda>c. c \<noteq> CHR ''/'') t) = CHR ''/''"
    using hd_dropWhile [of "\<lambda>c. c \<noteq> CHR ''/''" t] by simp
  with ne obtain r where r: "dropWhile (\<lambda>c. c \<noteq> CHR ''/'') t = CHR ''/'' # r"
    by (cases "dropWhile (\<lambda>c. c \<noteq> CHR ''/'') t") auto
  with split have t: "t = pre @ CHR ''/'' # r"
    by simp
  have "CHR ''/'' \<notin> set pre"
    unfolding pre_def using set_takeWhileD [of "CHR ''/''" "\<lambda>c. c \<noteq> CHR ''/''" t] by blast
  moreover have "drop k s = r"
  proof -
    have "s = (''/fs/'' @ pre @ ''/'') @ r" and "k = length (''/fs/'' @ pre @ ''/'')"
      by (simp_all add: s t k)
    then show ?thesis
      using append_eq_conv_conj [of "''/fs/'' @ pre @ ''/''" r s] by simp
  qed
  ultimately show ?thesis
    using s t lt by blast
qed

lemma fs_segment_here:
  assumes "CHR ''/'' \<notin> set pre" and "list_all (\<lambda>c. \<not> line_terminator c) pre"
  shows "fs_segment (''/fs/'' @ pre @ CHR ''/'' # r) \<noteq> None"
proof -
  have "takeWhile (\<lambda>c. c \<noteq> CHR ''/'') pre = pre"
    using assms(1) by (simp add: takeWhile_eq_all_conv) blast
  then have "takeWhile (\<lambda>c. c \<noteq> CHR ''/'') (pre @ CHR ''/'' # r) = pre"
    by (simp add: takeWhile_tail)
  with assms(2) show ?thesis
    by (simp add: fs_segment_def Let_def)
qed


lemma split_after_fs_step:
  "split_slash (replace_first fs_segment ''/original/'' s) =
     hd (split_slash s) # fs_inner (tl (split_slash s))"
proof (induction s)
  case Nil
  have "fs_segment [] = None"
    by (simp add: fs_segment_def)
  then show ?case
    by (simp add: fs_inner_def)
next
  case (Cons c cs)
  show ?case
  proof (cases "fs_segment (c # cs)")
    case (Some k)
    from fs_segment_match [OF Some] obtain pre r where
      m: "c # cs = ''/fs/'' @ pre @ CHR ''/'' # r" "CHR ''/'' \<notin> set pre"
         "list_all (\<lambda>c. \<not> line_terminator c) pre" "drop k (c # cs) = r"
      by blast
    then have c: "c = CHR ''/''" and cs: "cs = ''fs'' @ CHR ''/'' # pre @ CHR ''/'' # r"
      by auto
    have "split_slash cs = ''fs'' # split_slash (pre @ CHR ''/'' # r)"
      unfolding cs by (intro split_slash_segment) auto
    also have "split_slash (pre @ CHR ''/'' # r) = pre # split_slash r"
      using m(2) by (rule split_slash_segment)
    finally have sp: "split_slash cs = ''fs'' # pre # split_slash r" .
    have "replace_first fs_segment ''/original/'' (c # cs) = ''/original/'' @ r"
      using Some m(4) by simp
    then show ?thesis
      using c sp m(3) split_slash_nonempty [of r]
      by (cases "split_slash r") (simp_all add: fs_inner_Cons fs_hit_def)
  next
    case None
    then have step: "replace_first fs_segment ''/original/'' (c # cs) = c # replace_first fs_segment ''/original/'' cs"
      by simp
    show ?thesis
    proof (cases "c = CHR ''/''")
      case False
      with Cons.IH step show ?thesis by simp
    next
      case True
      obtain y zs where sp: "split_slash cs = y # zs"
        using split_slash_nonempty [of cs] by (cases "split_slash cs") auto
      have "\<not> (length zs \<ge> 2 \<and> fs_hit y (hd zs))"
      proof
        assume h: "length zs \<ge> 2 \<and> fs_hit y (hd zs)"
        then obtain z w rest where zs: "zs = z # w # rest"
          by (cases zs; cases "tl zs") auto
        with sp obtain r where r: "cs = y @ CHR ''/'' # r" "split_slash r = z # w # rest"
          using split_slash_prefix by blast
        then obtain r' where r': "r = z @ CHR ''/'' # r'" "CHR ''/'' \<notin> set z"
          using split_slash_prefix by blast
        from h zs have "y = ''fs''" and "list_all (\<lambda>c. \<not> line_terminator c) z"
          by (simp_all add: fs_hit_def)
        with True r(1) r' have "fs_segment (c # cs) \<noteq> None"
          using fs_segment_here [of z r'] by simp
        with None show False by simp
      qed
      then have "fs_inner (y # zs) = y # fs_inner zs"
        by (simp only: fs_inner_Cons if_False)
      with Cons.IH step True sp show ?thesis
        by simp
    qed
  qed
qed


lemma hd_split_slash_prefix: "prefix (hd (split_slash s)) s"
  by (induction s) auto

lemma replace_all_at_match:
  assumes "p \<noteq> []"
  shows "replace_all (lit p) rep (p @ h) = rep @ replace_all (lit p) rep h"
proof -
  obtain c p' where p: "p = c # p'"
    using assms by (cases p) auto
  have "lit p (c # p' @ h) = Some (length p)"
    by (simp add: lit_def p)
  then show ?thesis
    by (simp add: p)
qed

lemma split_after_suffix_step:
  assumes "p \<noteq> []" and "CHR ''/'' \<notin> set p" and "CHR ''/'' \<notin> set rep"
  shows "split_slash (replace_all (lit p) rep s) = map (replace_all (lit p) rep) (split_slash s)"
proof (induction "length s" arbitrary: s rule: less_induct)
  case less
  have empty: "replace_all (lit p) rep [] = []"
    using assms(1) by (simp add: lit_def)
  show ?case
  proof (cases s)
    case Nil
    with empty show ?thesis by simp
  next
    case (Cons c cs)
    show ?thesis
    proof (cases "prefix p s")
      case True
      then obtain r where r: "s = p @ r"
        by (auto simp: prefix_def)
      with assms(1) have "length r < length s"
        by simp
      then have ih: "split_slash (replace_all (lit p) rep r) = map (replace_all (lit p) rep) (split_slash r)"
        by (rule less.hyps)
      have "split_slash (replace_all (lit p) rep s) = split_slash (rep @ replace_all (lit p) rep r)"
        by (simp add: r replace_all_at_match [OF assms(1)])
      also have "\<dots> = (rep @ hd (split_slash (replace_all (lit p) rep r))) # tl (split_slash (replace_all (lit p) rep r))"
        using assms(3) by (rule split_slash_plain)
      also have "\<dots> = (rep @ replace_all (lit p) rep (hd (split_slash r)))
                        # map (replace_all (lit p) rep) (tl (split_slash r))"
        by (simp add: ih hd_map split_slash_nonempty map_tl)
      also have "\<dots> = map (replace_all (lit p) rep) ((p @ hd (split_slash r)) # tl (split_slash r))"
        by (simp add: replace_all_at_match [OF assms(1)])
      also have "(p @ hd (split_slash r)) # tl (split_slash r) = split_slash s"
        unfolding r using assms(2) by (rule split_slash_plain [symmetric])
      finally show ?thesis .
    next
      case False
      then have none: "lit p (c # cs) = None"
        by (simp add: lit_def Cons)
      have ih: "split_slash (replace_all (lit p) rep cs) = map (replace_all (lit p) rep) (split_slash cs)"
        by (rule less.hyps) (simp add: Cons)
      show ?thesis
      proof (cases "c = CHR ''/''")
        case True
        with none ih empty show ?thesis
          by (simp add: Cons)
      next
        case c: False
        have "\<not> prefix p (c # hd (split_slash cs))"
        proof
          assume "prefix p (c # hd (split_slash cs))"
          moreover have "prefix (c # hd (split_slash cs)) (c # cs)"
            by (simp add: hd_split_slash_prefix)
          ultimately have "prefix p (c # cs)"
            by (rule prefix_order.trans)
          with False Cons show False by simp
        qed
        then have "replace_all (lit p) rep (c # hd (split_slash cs)) = c # replace_all (lit p) rep (hd (split_slash cs))"
          by (simp add: lit_def)
        with none ih c show ?thesis
          by (simp add: Cons hd_map split_slash_nonempty map_tl)
      qed
    qed
  qed
qed


lemma interior_size_step:
  assumes "CHR ''/'' \<notin> set n"
  shows "interior (replace_first (size_segment n) ''/2000/'' s) = upd_first (size_hit n) ''2000'' (interior s)"
  by (simp add: interior_def split_after_size_step [OF assms] inner_upd_def)

lemma interior_fs_step:
  "interior (replace_first fs_segment ''/original/'' s) = fs_rewrite (interior s)"
  by (simp add: interior_def split_after_fs_step fs_inner_def)

lemma interior_suffix_step:
  assumes "p \<noteq> []" and "CHR ''/'' \<notin> set p" and "CHR ''/'' \<notin> set rep"
  shows "interior (replace_all (lit p) rep s) = map (replace_all (lit p) rep) (interior s)"
  by (simp add: interior_def split_after_suffix_step [OF assms] map_butlast map_tl)

lemma interior_scheme_step:
  "interior (replace_at_start (lit ''//'') ''https://'' u) = interior u"
proof (cases "prefix ''//'' u")
  case False
  then show ?thesis
    by (simp add: replace_at_start_def lit_def)
next
  case True
  then obtain r where "u = CHR ''/'' # CHR ''/'' # r"
    by (auto simp: prefix_def)
  then show ?thesis
    by (simp add: replace_at_start_def lit_def interior_def)
qed

lemma set_butlast_tl: "set (butlast (tl xs)) \<subseteq> set (butlast xs)"
  by (cases xs; cases "tl xs") auto

lemma size_marker_interior:
  assumes "CHR ''/'' \<notin> set n" and "regex_test (size_segment n) s"
  shows "\<exists>y\<in>set (interior s). size_hit n y"
  using assms(2)
proof (induction s)
  case Nil
  then show ?case
    by (simp add: size_segment_def alt_def lit_def)
next
  case (Cons c cs)
  show ?case
  proof (cases "size_segment n (c # cs)")
    case (Some k)
    then consider r where "c # cs = CHR ''/'' # (n @ ''H'') @ CHR ''/'' # r"
      | r where "c # cs = CHR ''/'' # n @ CHR ''/'' # r"
      using size_segment_length [OF Some] by (auto simp: prefix_def)
    then show ?thesis
    proof cases
      case 1
      then have "split_slash (c # cs) = [] # (n @ ''H'') # split_slash r"
        using assms(1) split_slash_segment [of "n @ ''H''" r] by simp
      then show ?thesis
        using split_slash_nonempty [of r] by (simp add: interior_def size_hit_def)
    next
      case 2
      then have "split_slash (c # cs) = [] # n # split_slash r"
        using assms(1) split_slash_segment [of n r] by simp
      then show ?thesis
        using split_slash_nonempty [of r] by (simp add: interior_def size_hit_def)
    qed
  next
    case None
    with Cons.prems have "regex_test (size_segment n) cs"
      by simp
    with Cons.IH obtain y where y: "y \<in> set (interior cs)" "size_hit n y"
      by blast
    have "set (interior cs) \<subseteq> set (interior (c # cs))"
      using set_butlast_tl [of "split_slash cs"] by (auto simp: interior_def)
    with y show ?thesis
      by blast
  qed
qed

lemma fs_count_Cons: "fs_count B \<le> fs_count (y # B)"
  by (cases B) auto

lemma fs_count_butlast_tl: "fs_count (butlast (tl xs)) \<le> fs_count (butlast xs)"
proof (cases xs)
  case Nil
  then show ?thesis by simp
next
  case (Cons x ys)
  then show ?thesis
    using fs_count_Cons [of "butlast ys" x] by (cases ys) auto
qed

lemma fs_marker_interior:
  assumes "regex_test fs_segment s"
  shows "0 < fs_count (interior s)"
  using assms
proof (induction s)
  case Nil
  then show ?case
    by (simp add: fs_segment_def)
next
  case (Cons c cs)
  show ?case
  proof (cases "fs_segment (c # cs)")
    case (Some k)
    from fs_segment_match [OF Some] obtain pre r where
      m: "c # cs = ''/fs/'' @ pre @ CHR ''/'' # r" "CHR ''/'' \<notin> set pre"
         "list_all (\<lambda>c. \<not> line_terminator c) pre"
      by blast
    have "split_slash (c # cs) = [] # ''fs'' # pre # split_slash r"
      using m(1,2) split_slash_segment [of "''fs''" "pre @ CHR ''/'' # r"] split_slash_segment [of pre r]
      by simp
    then show ?thesis
      using m(3) split_slash_nonempty [of r] by (simp add: interior_def)
  next
    case None
    with Cons.prems have "regex_test fs_segment cs"
      by simp
    with Cons.IH have "0 < fs_count (interior cs)" .
    moreover have "fs_count (interior cs) \<le> fs_count (interior (c # cs))"
      using fs_count_butlast_tl [of "split_slash cs"] by (auto simp: interior_def)
    ultimately show ?thesis
      by simp
  qed
qed


lemma upd_first_other:
  "\<not> Q v \<Longrightarrow> length (filter Q (upd_first P v B)) \<le> length (filter Q B)"
  by (induction B) auto

lemma upd_first_own:
  assumes "\<not> P v" and "length (filter P B) \<le> 1"
  shows "filter P (upd_first P v B) = []"
  using assms(2)
proof (induction B)
  case Nil
  then show ?case by simp
next
  case (Cons y B)
  show ?case
  proof (cases "P y")
    case True
    with Cons.prems have "filter P B = []" by simp
    with True assms(1) show ?thesis by simp
  next
    case False
    with Cons show ?thesis by simp
  qed
qed

lemma fs_count_step: "fs_count (y # B) = (if B \<noteq> [] \<and> fs_hit y (hd B) then 1 else 0) + fs_count B"
  by (cases B) (simp_all add: fs_hit_def)

lemma upd_first_hd:
  "upd_first P v B = [] \<longleftrightarrow> B = []"
  "B \<noteq> [] \<Longrightarrow> hd (upd_first P v B) = (if P (hd B) then v else hd B)"
  by (cases B; simp)+


lemma upd_first_fs_count:
  assumes P: "\<And>y. P y \<Longrightarrow> y \<noteq> ''fs'' \<and> list_all (\<lambda>c. \<not> line_terminator c) y"
    and v: "v \<noteq> ''fs''" "list_all (\<lambda>c. \<not> line_terminator c) v"
  shows "fs_count (upd_first P v B) \<le> fs_count B"
proof (induction B)
  case Nil
  then show ?case by simp
next
  case (Cons y B)
  show ?case
  proof (cases "P y")
    case True
    have "\<not> fs_hit v z" for z
      using v(1) by (simp add: fs_hit_def)
    then have "fs_count (v # B) = fs_count B"
      by (simp add: fs_count_step)
    moreover have "upd_first P v (y # B) = v # B"
      using True by simp
    moreover have "fs_count B \<le> fs_count (y # B)"
      by (simp add: fs_count_step)
    ultimately show ?thesis
      by simp
  next
    case False
    then have u: "upd_first P v (y # B) = y # upd_first P v B"
      by simp
    show ?thesis
    proof (cases "B = []")
      case True
      with u show ?thesis by simp
    next
      case ne: False
      have "fs_hit y (hd (upd_first P v B)) = fs_hit y (hd B)"
      proof (cases "P (hd B)")
        case True
        with P have "list_all (\<lambda>c. \<not> line_terminator c) (hd B)"
          by blast
        with True v(2) ne show ?thesis
          by (simp add: upd_first_hd(2) fs_hit_def)
      next
        case False
        with ne show ?thesis
          by (simp add: upd_first_hd(2))
      qed
      moreover have "upd_first P v B \<noteq> []"
        using ne by (simp add: upd_first_hd(1))
      ultimately have "fs_count (y # upd_first P v B)
          = (if fs_hit y (hd B) then 1 else 0) + fs_count (upd_first P v B)"
        by (simp add: fs_count_step)
      moreover have "fs_count (y # B) = (if fs_hit y (hd B) then 1 else 0) + fs_count B"
        using ne by (simp add: fs_count_step)
      ultimately show ?thesis
        using Cons.IH u by simp
    qed
  qed
qed

lemma fs_rewrite_other:
  assumes "\<not> Q ''original''"
  shows "length (filter Q (fs_rewrite B)) \<le> length (filter Q B)"
proof (induction B rule: fs_rewrite.induct)
  case (1 y z ys)
  show ?case
  proof (cases "fs_hit y z")
    case True
    then have "fs_rewrite (y # z # ys) = ''original'' # ys"
      by (simp add: fs_hit_def)
    with assms show ?thesis
      by simp
  next
    case False
    then have "fs_rewrite (y # z # ys) = y # fs_rewrite (z # ys)"
      by (simp add: fs_hit_def)
    moreover have "length (filter Q (fs_rewrite (z # ys))) \<le> length (filter Q (z # ys))"
      using 1 False by (simp add: fs_hit_def)
    ultimately show ?thesis
      by simp
  qed
qed simp_all

lemma fs_rewrite_hd:
  "fs_rewrite B = [] \<longleftrightarrow> B = []"
  "B \<noteq> [] \<Longrightarrow> hd (fs_rewrite B) = hd B \<or> (hd (fs_rewrite B) = ''original'' \<and> hd B = ''fs'')"
  by (induction B rule: fs_rewrite.induct) auto

lemma fs_rewrite_own:
  "fs_count B \<le> 1 \<Longrightarrow> fs_count (fs_rewrite B) = 0"
proof (induction B rule: fs_rewrite.induct)
  case (1 y z ys)
  show ?case
  proof (cases "fs_hit y z")
    case True
    with 1(2) have "fs_count (z # ys) = 0"
      by (simp add: fs_hit_def)
    then have "fs_count ys = 0"
      using fs_count_Cons [of ys z] by simp
    moreover have "\<not> fs_hit ''original'' w" for w
      by (simp add: fs_hit_def)
    ultimately show ?thesis
      using True by (simp add: fs_count_step fs_hit_def)
  next
    case False
    with 1(2) have "fs_count (z # ys) \<le> 1"
      by (simp add: fs_hit_def)
    with 1(1) False have ih: "fs_count (fs_rewrite (z # ys)) = 0"
      by (simp add: fs_hit_def)
    have "\<not> fs_hit y (hd (fs_rewrite (z # ys)))"
    proof
      assume h: "fs_hit y (hd (fs_rewrite (z # ys)))"
      from fs_rewrite_hd(2) [of "z # ys"]
      consider "hd (fs_rewrite (z # ys)) = z" | "z = ''fs''"
        by auto
      then show False
      proof cases
        case 1
        with h False show False by simp
      next
        case 2
        have "list_all (\<lambda>c. \<not> line_terminator c) ''fs''"
          by (simp add: line_terminator_def)
        with 2 h False show False
          by (simp add: fs_hit_def)
      qed
    qed
    moreover have "fs_rewrite (y # z # ys) = y # fs_rewrite (z # ys)"
      using False by (simp add: fs_hit_def)
    ultimately show ?thesis
      using ih by (simp add: fs_count_step)
  qed
qed auto

lemma map_filter_length:
  "(\<And>x. Q (f x) \<longleftrightarrow> Q x) \<Longrightarrow> length (filter Q (map f B)) = length (filter Q B)"
  by (induction B) auto

lemma map_fs_count:
  assumes "\<And>x. f x = ''fs'' \<longleftrightarrow> x = ''fs''"
    and "\<And>x. list_all (\<lambda>c. \<not> line_terminator c) (f x) \<longleftrightarrow> list_all (\<lambda>c. \<not> line_terminator c) x"
  shows "fs_count (map f B) = fs_count B"
proof (induction B rule: fs_count.induct)
  case (1 y z ys)
  have "fs_hit (f y) (f z) = fs_hit y z"
    unfolding fs_hit_def assms ..
  with 1 show ?case
    by (simp add: fs_hit_def)
qed simp_all


lemma replace_all_id:
  assumes "\<not> sublist p x"
  shows "replace_all (lit p) rep x = x"
  using assms
proof (induction x)
  case Nil
  then show ?case by (simp add: lit_def)
next
  case (Cons c cs)
  then have "\<not> prefix p (c # cs)" and "\<not> sublist p cs"
    by (auto simp: sublist_Cons_right)
  with Cons.IH show ?case
    by (simp add: lit_def)
qed

lemma replace_all_set:
  assumes "p \<noteq> []" and "c \<notin> set p" and "c \<notin> set rep"
  shows "c \<in> set (replace_all (lit p) rep x) \<longleftrightarrow> c \<in> set x"
proof (induction "length x" arbitrary: x rule: less_induct)
  case less
  show ?case
  proof (cases "prefix p x")
    case True
    then obtain r where r: "x = p @ r"
      by (auto simp: prefix_def)
    with assms(1) have "length r < length x" by simp
    then have "c \<in> set (replace_all (lit p) rep r) \<longleftrightarrow> c \<in> set r"
      by (rule less.hyps)
    with assms(2,3) show ?thesis
      by (simp add: r replace_all_at_match [OF assms(1)])
  next
    case False
    show ?thesis
    proof (cases x)
      case Nil
      with assms(1) show ?thesis by (simp add: lit_def)
    next
      case (Cons d ds)
      have "c \<in> set (replace_all (lit p) rep ds) \<longleftrightarrow> c \<in> set ds"
        by (rule less.hyps) (simp add: Cons)
      with False Cons show ?thesis
        by (simp add: lit_def)
    qed
  qed
qed

lemma suffix_step_keeps_plain:
  assumes "CHR ''_'' \<notin> set y"
  shows "replace_all (lit (CHR ''_'' # pb)) (CHR ''_'' # rb) x = y \<longleftrightarrow> x = y"
proof
  assume "x = y"
  with assms have "\<not> sublist (CHR ''_'' # pb) x"
    using set_mono_sublist by fastforce
  with \<open>x = y\<close> show "replace_all (lit (CHR ''_'' # pb)) (CHR ''_'' # rb) x = y"
    by (simp add: replace_all_id)
next
  assume e: "replace_all (lit (CHR ''_'' # pb)) (CHR ''_'' # rb) x = y"
  from replace_all_cases [of "lit (CHR ''_'' # pb)" "CHR ''_'' # rb" x]
  show "x = y"
  proof
    assume "replace_all (lit (CHR ''_'' # pb)) (CHR ''_'' # rb) x = x"
    with e show ?thesis by simp
  next
    assume "\<exists>a b. replace_all (lit (CHR ''_'' # pb)) (CHR ''_'' # rb) x = a @ (CHR ''_'' # rb) @ b"
    with e have "CHR ''_'' \<in> set y" by auto
    with assms show ?thesis by simp
  qed
qed

lemma line_free_iff:
  "list_all (\<lambda>c. \<not> line_terminator c) y \<longleftrightarrow> CHR 0x0A \<notin> set y \<and> CHR 0x0D \<notin> set y"
  by (auto simp: list_all_iff line_terminator_def)

lemma suffix_step_line_free:
  assumes "n \<in> set sizes"
  shows "list_all (\<lambda>c. \<not> line_terminator c) (replace_all (lit (suffix_pattern n)) ''_2000.'' x)
         \<longleftrightarrow> list_all (\<lambda>c. \<not> line_terminator c) x"
proof -
  have "suffix_pattern n \<noteq> []" "CHR 0x0A \<notin> set (suffix_pattern n)" "CHR 0x0D \<notin> set (suffix_pattern n)"
    using assms by (auto simp: suffix_pattern_def sizes_def)
  then show ?thesis
    unfolding line_free_iff by (simp add: replace_all_set)
qed

lemma sizes_facts:
  assumes "n \<in> set sizes"
  shows "CHR ''/'' \<notin> set n"
    and "\<not> size_hit n ''2000''" and "\<not> size_hit n ''original''"
    and "size_hit n y \<Longrightarrow> y \<noteq> ''fs'' \<and> list_all (\<lambda>c. \<not> line_terminator c) y \<and> CHR ''_'' \<notin> set y"
  using assms by (auto simp: sizes_def size_hit_def line_terminator_def)


lemma size_steps_invariant:
  assumes "set ns \<subseteq> set sizes"
    and "fs_count (interior s) = 0"
    and "\<forall>n\<in>set sizes. length (filter (size_hit n) (interior s)) \<le> 1"
  shows "fs_count (interior (foldl (\<lambda>s st. apply_step st s) s (map (\<lambda>n. (False, size_segment n, ''/2000/'')) ns))) = 0
       \<and> (\<forall>n\<in>set sizes. length (filter (size_hit n)
              (interior (foldl (\<lambda>s st. apply_step st s) s (map (\<lambda>n. (False, size_segment n, ''/2000/'')) ns)))) \<le> 1)
       \<and> (\<forall>n\<in>set ns. filter (size_hit n)
              (interior (foldl (\<lambda>s st. apply_step st s) s (map (\<lambda>n. (False, size_segment n, ''/2000/'')) ns))) = [])"
  using assms(1)
proof (induction ns rule: rev_induct)
  case Nil
  with assms(2,3) show ?case by simp
next
  case (snoc n ns)
  let ?s = "foldl (\<lambda>s st. apply_step st s) s (map (\<lambda>n. (False, size_segment n, ''/2000/'')) ns)"
  let ?B = "interior ?s"
  from snoc have n: "n \<in> set sizes" and ih: "fs_count ?B = 0"
    "\<forall>k\<in>set sizes. length (filter (size_hit k) ?B) \<le> 1"
    "\<forall>k\<in>set ns. filter (size_hit k) ?B = []"
    by auto
  have step: "interior (foldl (\<lambda>s st. apply_step st s) s (map (\<lambda>n. (False, size_segment n, ''/2000/'')) (ns @ [n])))
                = upd_first (size_hit n) ''2000'' ?B"
    using sizes_facts(1) [OF n] by (simp add: apply_step_def interior_size_step)
  have a: "fs_count (upd_first (size_hit n) ''2000'' ?B) = 0"
  proof -
    have "fs_count (upd_first (size_hit n) ''2000'' ?B) \<le> fs_count ?B"
    proof (rule upd_first_fs_count)
      show "y \<noteq> ''fs'' \<and> list_all (\<lambda>c. \<not> line_terminator c) y" if "size_hit n y" for y
        using sizes_facts(4) [OF n that] by simp
      show "''2000'' \<noteq> ''fs''" by simp
      show "list_all (\<lambda>c. \<not> line_terminator c) ''2000''" by (simp add: line_terminator_def)
    qed
    with ih(1) show ?thesis by simp
  qed
  have b: "length (filter (size_hit k) (upd_first (size_hit n) ''2000'' ?B)) \<le> length (filter (size_hit k) ?B)"
    if "k \<in> set sizes" for k
    using sizes_facts(2) [OF that] by (rule upd_first_other)
  have c: "filter (size_hit n) (upd_first (size_hit n) ''2000'' ?B) = []"
    using sizes_facts(2) [OF n] ih(2) n by (intro upd_first_own) auto
  have d: "filter (size_hit k) (upd_first (size_hit n) ''2000'' ?B) = []" if "k \<in> set ns" for k
  proof -
    from that snoc.prems have "k \<in> set sizes" by auto
    from b [OF this] ih(3) that show ?thesis by simp
  qed
  have e: "length (filter (size_hit k) (upd_first (size_hit n) ''2000'' ?B)) \<le> 1" if "k \<in> set sizes" for k
    using b [OF that] ih(2) that by fastforce
  from a c d e show ?case
    unfolding step by auto
qed

lemma suffix_steps_invariant:
  assumes "set ns \<subseteq> set sizes"
  shows "fs_count (interior (foldl (\<lambda>s st. apply_step st s) s (map (\<lambda>n. (True, lit (suffix_pattern n), ''_2000.'')) ns)))
           = fs_count (interior s)
       \<and> (\<forall>k\<in>set sizes. length (filter (size_hit k)
              (interior (foldl (\<lambda>s st. apply_step st s) s (map (\<lambda>n. (True, lit (suffix_pattern n), ''_2000.'')) ns))))
            = length (filter (size_hit k) (interior s)))"
  using assms
proof (induction ns rule: rev_induct)
  case Nil
  then show ?case by simp
next
  case (snoc n ns)
  let ?s = "foldl (\<lambda>s st. apply_step st s) s (map (\<lambda>n. (True, lit (suffix_pattern n), ''_2000.'')) ns)"
  let ?f = "replace_all (lit (suffix_pattern n)) ''_2000.''"
  from snoc have n: "n \<in> set sizes" and ih: "fs_count (interior ?s) = fs_count (interior s)"
    "\<forall>k\<in>set sizes. length (filter (size_hit k) (interior ?s)) = length (filter (size_hit k) (interior s))"
    by auto
  have pat: "suffix_pattern n = CHR ''_'' # (n @ ''.'')"
    by (simp add: suffix_pattern_def)
  have "suffix_pattern n \<noteq> []" "CHR ''/'' \<notin> set (suffix_pattern n)" "CHR ''/'' \<notin> set ''_2000.''"
    using sizes_facts(1) [OF n] by (simp_all add: suffix_pattern_def)
  then have step: "interior (foldl (\<lambda>s st. apply_step st s) s (map (\<lambda>n. (True, lit (suffix_pattern n), ''_2000.'')) (ns @ [n])))
                = map ?f (interior ?s)"
    by (simp add: apply_step_def interior_suffix_step)
  have plain: "?f x = y \<longleftrightarrow> x = y" if "CHR ''_'' \<notin> set y" for x y
    unfolding pat using suffix_step_keeps_plain [OF that, of "n @ ''.''" "''2000.''" x] by simp
  have a: "fs_count (map ?f (interior ?s)) = fs_count (interior ?s)"
  proof (rule map_fs_count)
    show "?f x = ''fs'' \<longleftrightarrow> x = ''fs''" for x
      by (rule plain) simp
    show "list_all (\<lambda>c. \<not> line_terminator c) (?f x) \<longleftrightarrow> list_all (\<lambda>c. \<not> line_terminator c) x" for x
      using n by (rule suffix_step_line_free)
  qed
  have b: "length (filter (size_hit k) (map ?f (interior ?s))) = length (filter (size_hit k) (interior ?s))"
    if "k \<in> set sizes" for k
  proof (rule map_filter_length)
    fix x
    have "CHR ''_'' \<notin> set (k @ ''H'')" "CHR ''_'' \<notin> set k"
      using that by (auto simp: sizes_def)
    then show "size_hit k (?f x) \<longleftrightarrow> size_hit k x"
      unfolding size_hit_def using plain by blast
  qed
  from a b ih show ?case
    unfolding step by simp
qed

lemma regex_test_lit: "regex_test (lit p) s \<longleftrightarrow> sublist p s"
  by (induction s) (auto simp: lit_def sublist_Cons_right)

lemma no_marker_in_empty: "\<not> low_res_marker []"
proof
  assume "low_res_marker []"
  then obtain st where "st \<in> set (path_steps @ suffix_steps)" "regex_test (fst (snd st)) []"
    by (auto simp: low_res_marker_def list_ex_iff)
  then have "([]::string) \<noteq> []"
    by (rule regex_test_nonempty)
  then show False by simp
qed

lemma suffix_markers_removed:
  "\<forall>n\<in>set sizes. \<not> sublist (suffix_pattern n) (getHighestQualityUrl u)"
proof (cases "u = []")
  case True
  then show ?thesis
    by (simp add: getHighestQualityUrl_def suffix_pattern_def)
next
  case False
  then show ?thesis
    using suffix_steps_remove [of sizes]
    by (simp add: getHighestQualityUrl_steps suffix_steps_def)
qed

lemma unique_path_markers_removed:
  assumes "path_markers_unique u"
  shows "\<not> low_res_marker (getHighestQualityUrl u)"
proof (cases "u = []")
  case True
  then show ?thesis
    by (simp add: getHighestQualityUrl_def no_marker_in_empty)
next
  case False
  define c where "c = replace_at_start (lit ''//'') ''https://'' u"
  define s1 where "s1 = replace_first fs_segment ''/original/'' c"
  define s6 where "s6 = foldl (\<lambda>s st. apply_step st s) s1 (map (\<lambda>n. (False, size_segment n, ''/2000/'')) sizes)"
  define r where "r = foldl (\<lambda>s st. apply_step st s) s6 (map (\<lambda>n. (True, lit (suffix_pattern n), ''_2000.'')) sizes)"
  have result: "getHighestQualityUrl u = r"
    using False
    by (simp add: getHighestQualityUrl_steps path_steps_def suffix_steps_def apply_step_def
        r_def s6_def s1_def c_def)
  from assms have h: "fs_count (interior c) \<le> 1"
    "\<forall>n\<in>set sizes. length (filter (size_hit n) (interior c)) \<le> 1"
    by (simp_all add: path_markers_unique_def c_def interior_scheme_step list_all_iff)
  have i1: "interior s1 = fs_rewrite (interior c)"
    by (simp add: s1_def interior_fs_step)
  have fs1: "fs_count (interior s1) = 0"
    unfolding i1 using h(1) by (rule fs_rewrite_own)
  have sz1: "\<forall>n\<in>set sizes. length (filter (size_hit n) (interior s1)) \<le> 1"
  proof
    fix n assume n: "n \<in> set sizes"
    have "length (filter (size_hit n) (fs_rewrite (interior c))) \<le> length (filter (size_hit n) (interior c))"
      using sizes_facts(3) [OF n] by (rule fs_rewrite_other)
    with h(2) n show "length (filter (size_hit n) (interior s1)) \<le> 1"
      unfolding i1 by fastforce
  qed
  from size_steps_invariant [OF subset_refl fs1 sz1]
  have fs6: "fs_count (interior s6) = 0"
    and sz6: "\<forall>n\<in>set sizes. filter (size_hit n) (interior s6) = []"
    unfolding s6_def by blast+
  from suffix_steps_invariant [OF subset_refl, of s6]
  have fsr: "fs_count (interior r) = 0"
    and szr: "\<forall>n\<in>set sizes. filter (size_hit n) (interior r) = []"
    unfolding r_def [symmetric] using fs6 sz6 by simp_all
  have no_fs: "\<not> regex_test fs_segment r"
    using fs_marker_interior [of r] fsr by auto
  have no_size: "\<not> regex_test (size_segment n) r" if "n \<in> set sizes" for n
  proof
    assume "regex_test (size_segment n) r"
    with sizes_facts(1) [OF that] obtain y where "y \<in> set (interior r)" "size_hit n y"
      using size_marker_interior by blast
    then have "filter (size_hit n) (interior r) \<noteq> []"
      by (auto simp: filter_empty_conv)
    with szr that show False by simp
  qed
  have no_suffix: "\<not> regex_test (lit (suffix_pattern n)) r" if "n \<in> set sizes" for n
    using suffix_markers_removed [of u] that by (simp add: regex_test_lit result)
  have "\<not> regex_test (fst (snd st)) r" if "st \<in> set (path_steps @ suffix_steps)" for st
    using that no_fs no_size no_suffix by (auto simp: path_steps_def suffix_steps_def)
  then show ?thesis
    by (simp add: result low_res_marker_def list_ex_iff)
qed

text \<open>
  Claim C3, as the code has it. When no path segment pattern matches at two places of the raw
  address, the result holds no low-resolution marker at all. For every raw address the result
  holds none of the file name size suffixes (\<^verbatim>\<open>_200.\<close>, \<^verbatim>\<open>_400.\<close>, \<^verbatim>\<open>_600.\<close>, \<^verbatim>\<open>_800.\<close>,
  \<^verbatim>\<open>_1400.\<close>): every occurrence is rewritten. When the raw address holds a low-resolution
  marker, the result asks for the maximum resolution: it holds \<^verbatim>\<open>/original/\<close> or \<^verbatim>\<open>2000\<close>.
\<close>

theorem getHighestQualityUrl_markers:
  "(path_markers_unique u \<longrightarrow> \<not> low_res_marker (getHighestQualityUrl u))
   \<and> (\<forall>n\<in>set sizes. \<not> str_includes (getHighestQualityUrl u) (suffix_pattern n))
   \<and> (low_res_marker u \<longrightarrow> max_resolution_token (getHighestQualityUrl u))"
  using unique_path_markers_removed suffix_markers_removed marker_gives_token
  by (simp add: str_includes_sublist)

lemma getHighestQualityUrl_example:
  "getHighestQualityUrl ''//mir-s3-cdn-cf.behance.net/project_modules/fs/abc/x_400.jpg''
     = ''https://mir-s3-cdn-cf.behance.net/project_modules/original/x_2000.jpg''
   \<and> low_res_marker ''//mir-s3-cdn-cf.behance.net/project_modules/fs/abc/x_400.jpg''
   \<and> path_markers_unique ''//mir-s3-cdn-cf.behance.net/project_modules/fs/abc/x_400.jpg''"
  by code_simp

theorem getHighestQualityUrl_markers_witness:
  "path_markers_unique ''//mir-s3-cdn-cf.behance.net/project_modules/fs/abc/x_400.jpg''
   \<and> low_res_marker ''//mir-s3-cdn-cf.behance.net/project_modules/fs/abc/x_400.jpg''
   \<and> \<not> low_res_marker ''https://mir-s3-cdn-cf.behance.net/project_modules/original/x_2000.jpg''
   \<and> max_resolution_token ''https://mir-s3-cdn-cf.behance.net/project_modules/original/x_2000.jpg''
   \<and> \<not> str_includes ''https://mir-s3-cdn-cf.behance.net/project_modules/original/x_2000.jpg'' ''_400.''"
  using getHighestQualityUrl_markers [of "''//mir-s3-cdn-cf.behance.net/project_modules/fs/abc/x_400.jpg''"]
    getHighestQualityUrl_example
  by (simp add: sizes_def suffix_pattern_def)

text \<open>
  Claim C3 as it is stated fails at an address that holds the same path segment twice: of a
  path segment pattern only the leftmost match is rewritten, the second \<^verbatim>\<open>/200/\<close> is left
  in the result, which so still holds a low-resolution marker.
\<close>

theorem getHighestQualityUrl_repeated_marker_counterexample:
  "low_res_marker ''https://mir-s3-cdn-cf.behance.net/project_modules/200/a/200/b.jpg''
   \<and> getHighestQualityUrl ''https://mir-s3-cdn-cf.behance.net/project_modules/200/a/200/b.jpg''
       = ''https://mir-s3-cdn-cf.behance.net/project_modules/2000/a/200/b.jpg''
   \<and> low_res_marker (getHighestQualityUrl ''https://mir-s3-cdn-cf.behance.net/project_modules/200/a/200/b.jpg'')"
  by code_simp

end
